theory Spec2Isabelle
  imports Complex_Main
begin

section \<open>Exceptions and values\<close>

text \<open>
  The two programs of the repository are \<^verbatim>\<open>arbitrage_bot/arbitrage_bot.py\<close> and its later
  variant \<^verbatim>\<open>arbitrage_bot/arb/arbitrage_discovery_bot.py\<close>. Both are embedded; a name
  shared by the two files carries the suffix \<open>_disc\<close> for the discovery bot.

  Python floats are idealised as real numbers: \<open>math.log\<close> is \<open>ln\<close>,
  \<open>math.exp\<close> is \<open>exp\<close>, and rounding, overflow and underflow are left out.
  Token and pool addresses are strings.
\<close>

datatype exn =
    BadFunctionCallOutput
  | ContractLogicError
  | ProviderError
  | KeyError
  | TypeError
  | IndexError
  | StopIteration
  | ValueError

type_synonym ('t, 'p) edge = "'t \<times> 't \<times> real \<times> 'p"

type_synonym 'p parents = "(nat \<times> 'p) option list"

section \<open>Negative-cycle detection\<close>

text \<open>
  \<open>nodes\<close> is a Python set. The detector enumerates it once; the list argument
  \<open>nodes\<close> of the model is that enumeration, which has no repeated element.
  \<open>token_to_idx\<close> is \<^verbatim>\<open>{t: i for i, t in enumerate(nodes)}\<close> and \<open>idx_to_token\<close>
  its inverse dictionary.
\<close>

definition token_to_idx :: "'t list \<Rightarrow> ('t \<rightharpoonup> nat)" where
  "token_to_idx nodes = map_of (zip nodes [0..<length nodes])"

definition idx_to_token :: "'t list \<Rightarrow> (nat \<rightharpoonup> 't)" where
  "idx_to_token nodes = map_of (zip [0..<length nodes] nodes)"

text \<open>One edge of the relaxation loop of \<^verbatim>\<open>arbitrage_bot.py\<close>, with its \<open>updated\<close> flag.\<close>

fun relax_edge ::
  "('t \<rightharpoonup> nat) \<Rightarrow> real list \<times> 'p parents \<times> bool \<Rightarrow> ('t, 'p) edge
     \<Rightarrow> exn + real list \<times> 'p parents \<times> bool" where
  "relax_edge idx (d, parent, updated) (u, v, w, pool) =
     (case idx u of None \<Rightarrow> Inl KeyError | Some ui \<Rightarrow>
      (case idx v of None \<Rightarrow> Inl KeyError | Some vi \<Rightarrow>
        if d ! ui + w < d ! vi
        then Inr (d[vi := d ! ui + w], parent[vi := Some (ui, pool)], True)
        else Inr (d, parent, updated)))"

fun relax_pass ::
  "('t \<rightharpoonup> nat) \<Rightarrow> real list \<times> 'p parents \<times> bool \<Rightarrow> ('t, 'p) edge list
     \<Rightarrow> exn + real list \<times> 'p parents \<times> bool" where
  "relax_pass idx st [] = Inr st"
| "relax_pass idx st (e # es) =
     (case relax_edge idx st e of Inl x \<Rightarrow> Inl x | Inr st' \<Rightarrow> relax_pass idx st' es)"

text \<open>
  \<^verbatim>\<open>for _ in range(N - 1)\<close> with the early \<^verbatim>\<open>break\<close> after a pass that updated
  nothing. The first argument is the number of passes left, the last component of the
  result counts the passes that were run.
\<close>

fun relax_passes ::
  "nat \<Rightarrow> ('t \<rightharpoonup> nat) \<Rightarrow> ('t, 'p) edge list \<Rightarrow> real list \<times> 'p parents \<times> nat
     \<Rightarrow> exn + real list \<times> 'p parents \<times> nat" where
  "relax_passes 0 idx edges st = Inr st"
| "relax_passes (Suc k) idx edges (d, parent, cnt) =
     (case relax_pass idx (d, parent, False) edges of
        Inl x \<Rightarrow> Inl x
      | Inr (d', parent', updated) \<Rightarrow>
          if \<not> updated then Inr (d', parent', Suc cnt)
          else relax_passes k idx edges (d', parent', Suc cnt))"

text \<open>
  The first loop of the extraction: at most \<open>N\<close> steps along the predecessor links,
  stopping at a node without predecessor.
\<close>

fun walk_back :: "'p parents \<Rightarrow> nat \<Rightarrow> nat \<Rightarrow> nat" where
  "walk_back parent 0 start = start"
| "walk_back parent (Suc k) start =
     (case parent ! start of None \<Rightarrow> start | Some (prev_idx, pl) \<Rightarrow> walk_back parent k prev_idx)"

text \<open>
  The \<^verbatim>\<open>while True\<close> loop that collects the cycle; it is the same in both files.
  \<open>None\<close> stands for a loop that never ends.
\<close>

partial_function (option) collect_cycle ::
  "'p parents \<Rightarrow> (nat \<rightharpoonup> 't) \<Rightarrow> nat \<Rightarrow> nat \<Rightarrow> 't list \<Rightarrow> 'p list
     \<Rightarrow> (exn + 't list \<times> 'p list) option" where
  "collect_cycle parent i2t start cur cycle_tokens cycle_pools =
     (case parent ! cur of
        None \<Rightarrow> Some (Inr (cycle_tokens, cycle_pools))
      | Some (prev_idx, pl) \<Rightarrow>
          (case i2t cur of
             None \<Rightarrow> Some (Inl KeyError)
           | Some t \<Rightarrow>
               if prev_idx = start then Some (Inr (cycle_tokens @ [t], cycle_pools @ [pl]))
               else collect_cycle parent i2t start prev_idx (cycle_tokens @ [t]) (cycle_pools @ [pl])))"

text \<open>What follows the collecting loop: append the start token, reverse both lists.\<close>

definition finish_cycle ::
  "(nat \<rightharpoonup> 't) \<Rightarrow> nat \<Rightarrow> (exn + 't list \<times> 'p list) option \<Rightarrow> (exn + 't list \<times> 'p list) option" where
  "finish_cycle i2t start r =
     (case r of
        None \<Rightarrow> None
      | Some (Inl x) \<Rightarrow> Some (Inl x)
      | Some (Inr (cycle_tokens, cycle_pools)) \<Rightarrow>
          (case i2t start of
             None \<Rightarrow> Some (Inl KeyError)
           | Some t \<Rightarrow> Some (Inr (rev (cycle_tokens @ [t]), rev cycle_pools))))"

definition extract_cycle ::
  "'p parents \<Rightarrow> (nat \<rightharpoonup> 't) \<Rightarrow> nat \<Rightarrow> nat \<Rightarrow> (exn + 't list \<times> 'p list) option" where
  "extract_cycle parent i2t N vi =
     (let start = walk_back parent N vi
      in finish_cycle i2t start (collect_cycle parent i2t start start [] []))"

text \<open>The verification loop: the first edge that still relaxes starts the extraction.\<close>

fun detect ::
  "('t \<rightharpoonup> nat) \<Rightarrow> (nat \<rightharpoonup> 't) \<Rightarrow> nat \<Rightarrow> real list \<Rightarrow> 'p parents \<Rightarrow> ('t, 'p) edge list
     \<Rightarrow> (exn + 't list \<times> 'p list) option" where
  "detect idx i2t N d parent [] = Some (Inr ([], []))"
| "detect idx i2t N d parent ((u, v, w, pool) # es) =
     (case idx u of None \<Rightarrow> Some (Inl KeyError) | Some ui \<Rightarrow>
      (case idx v of None \<Rightarrow> Some (Inl KeyError) | Some vi \<Rightarrow>
        if d ! ui + w < d ! vi then extract_cycle parent i2t N vi
        else detect idx i2t N d parent es))"

definition bellman_ford ::
  "'t list \<Rightarrow> ('t, 'p) edge list \<Rightarrow> exn + real list \<times> 'p parents \<times> nat" where
  "bellman_ford nodes edges =
     relax_passes (length nodes - 1) (token_to_idx nodes) edges
       (replicate (length nodes) 0, replicate (length nodes) None, 0)"

definition find_negative_cycle ::
  "'t list \<Rightarrow> ('t, 'p) edge list \<Rightarrow> (exn + 't list \<times> 'p list) option" where
  "find_negative_cycle nodes edges =
     (case bellman_ford nodes edges of
        Inl x \<Rightarrow> Some (Inl x)
      | Inr (d, parent, cnt) \<Rightarrow>
          detect (token_to_idx nodes) (idx_to_token nodes) (length nodes) d parent edges)"

subsection \<open>The detector of the discovery bot\<close>

text \<open>No \<open>updated\<close> flag and no early exit: every one of the \<open>N - 1\<close> passes is run.\<close>

fun relax_edge_disc ::
  "('t \<rightharpoonup> nat) \<Rightarrow> real list \<times> 'p parents \<Rightarrow> ('t, 'p) edge \<Rightarrow> exn + real list \<times> 'p parents" where
  "relax_edge_disc idx (d, parent) (u, v, w, p) =
     (case idx u of None \<Rightarrow> Inl KeyError | Some ui \<Rightarrow>
      (case idx v of None \<Rightarrow> Inl KeyError | Some vi \<Rightarrow>
        if d ! ui + w < d ! vi
        then Inr (d[vi := d ! ui + w], parent[vi := Some (ui, p)])
        else Inr (d, parent)))"

fun relax_pass_disc ::
  "('t \<rightharpoonup> nat) \<Rightarrow> real list \<times> 'p parents \<Rightarrow> ('t, 'p) edge list \<Rightarrow> exn + real list \<times> 'p parents" where
  "relax_pass_disc idx st [] = Inr st"
| "relax_pass_disc idx st (e # es) =
     (case relax_edge_disc idx st e of Inl x \<Rightarrow> Inl x | Inr st' \<Rightarrow> relax_pass_disc idx st' es)"

fun relax_passes_disc ::
  "nat \<Rightarrow> ('t \<rightharpoonup> nat) \<Rightarrow> ('t, 'p) edge list \<Rightarrow> real list \<times> 'p parents \<times> nat
     \<Rightarrow> exn + real list \<times> 'p parents \<times> nat" where
  "relax_passes_disc 0 idx edges st = Inr st"
| "relax_passes_disc (Suc k) idx edges (d, parent, cnt) =
     (case relax_pass_disc idx (d, parent) edges of
        Inl x \<Rightarrow> Inl x
      | Inr (d', parent') \<Rightarrow> relax_passes_disc k idx edges (d', parent', Suc cnt))"

text \<open>
  \<^verbatim>\<open>for _ in range(len(nodes)): vi = parent[vi][0]\<close>: subscripting \<open>None\<close> raises
  \<open>TypeError\<close>.
\<close>

fun walk_back_disc :: "'p parents \<Rightarrow> nat \<Rightarrow> nat \<Rightarrow> exn + nat" where
  "walk_back_disc parent 0 vi = Inr vi"
| "walk_back_disc parent (Suc k) vi =
     (case parent ! vi of None \<Rightarrow> Inl TypeError | Some (prev_idx, pl) \<Rightarrow> walk_back_disc parent k prev_idx)"

definition extract_cycle_disc ::
  "'p parents \<Rightarrow> (nat \<rightharpoonup> 't) \<Rightarrow> nat \<Rightarrow> nat \<Rightarrow> (exn + 't list \<times> 'p list) option" where
  "extract_cycle_disc parent i2t N vi =
     (case walk_back_disc parent N vi of
        Inl x \<Rightarrow> Some (Inl x)
      | Inr vi' \<Rightarrow> finish_cycle i2t vi' (collect_cycle parent i2t vi' vi' [] []))"

fun detect_disc ::
  "('t \<rightharpoonup> nat) \<Rightarrow> (nat \<rightharpoonup> 't) \<Rightarrow> nat \<Rightarrow> real list \<Rightarrow> 'p parents \<Rightarrow> ('t, 'p) edge list
     \<Rightarrow> (exn + 't list \<times> 'p list) option" where
  "detect_disc idx i2t N d parent [] = Some (Inr ([], []))"
| "detect_disc idx i2t N d parent ((u, v, w, p) # es) =
     (case idx u of None \<Rightarrow> Some (Inl KeyError) | Some ui \<Rightarrow>
      (case idx v of None \<Rightarrow> Some (Inl KeyError) | Some vi \<Rightarrow>
        if d ! ui + w < d ! vi then extract_cycle_disc parent i2t N vi
        else detect_disc idx i2t N d parent es))"

definition bellman_ford_disc ::
  "'t list \<Rightarrow> ('t, 'p) edge list \<Rightarrow> exn + real list \<times> 'p parents \<times> nat" where
  "bellman_ford_disc nodes edges =
     relax_passes_disc (length nodes - 1) (token_to_idx nodes) edges
       (replicate (length nodes) 0, replicate (length nodes) None, 0)"

definition find_negative_cycle_disc ::
  "'t list \<Rightarrow> ('t, 'p) edge list \<Rightarrow> (exn + 't list \<times> 'p list) option" where
  "find_negative_cycle_disc nodes edges =
     (case bellman_ford_disc nodes edges of
        Inl x \<Rightarrow> Some (Inl x)
      | Inr (d, parent, cnt) \<Rightarrow>
          detect_disc (token_to_idx nodes) (idx_to_token nodes) (length nodes) d parent edges)"

section \<open>Pools and the chain-data provider\<close>

text \<open>
  A \<^verbatim>\<open>Pool\<close> object. The flag is called \<^verbatim>\<open>is_valid_pair\<close> in \<^verbatim>\<open>arbitrage_bot.py\<close>
  and \<^verbatim>\<open>is_valid\<close> in the discovery bot; the other attributes are the same. The
  \<^verbatim>\<open>contract\<close> attribute is the handle of the calls below and carries no data of its own.
\<close>

record pool =
  address :: string
  token0 :: "string option"
  token1 :: "string option"
  token0_decimals :: "nat option"
  token1_decimals :: "nat option"
  token0_symbol :: "string option"
  token1_symbol :: "string option"
  reserve0 :: real
  reserve1 :: real
  is_valid_pair :: bool

definition Pool :: "string \<Rightarrow> pool" where
  "Pool addr =
     \<lparr>address = addr, token0 = None, token1 = None,
      token0_decimals = None, token1_decimals = None,
      token0_symbol = None, token1_symbol = None,
      reserve0 = 0, reserve1 = 0, is_valid_pair = True\<rparr>"

text \<open>
  What the chain answers during one tick: each contract call either returns or raises.
  \<open>ProviderError\<close> stands for every exception other than the two of \<^verbatim>\<open>web3.exceptions\<close>
  that the programs name (a transport failure, a timeout).
\<close>

record chain =
  token0_call :: "string \<Rightarrow> exn + string"
  token1_call :: "string \<Rightarrow> exn + string"
  symbol_call :: "string \<Rightarrow> exn + string"
  decimals_call :: "string \<Rightarrow> exn + nat"
  getReserves_call :: "string \<Rightarrow> exn + nat \<times> nat \<times> nat"

datatype call =
    Token0 string
  | Token1 string
  | Symbol string
  | Decimals string
  | GetReserves string

text \<open>
  Everything a run does to the outside, in order: the contract calls it makes, what it
  prints or logs, and its sleeps.
\<close>

datatype event =
    Rpc call
  | Print_invalid_reserves string
  | Warning_invalid_pair string
  | Warning_reserve_failed string
  | Arbitrage string real "(string option \<times> string option \<times> string) list"
  | Log_exception exn
  | Sleep

text \<open>
  A method of a pool runs on the pool and the trace so far; it returns or raises, and
  leaves the pool as mutated up to that point.
\<close>

type_synonym 'a act = "pool \<times> event list \<Rightarrow> (exn + 'a) \<times> pool \<times> event list"

definition ret :: "'a \<Rightarrow> 'a act" where
  "ret x s = (Inr x, s)"

definition bnd :: "'a act \<Rightarrow> ('a \<Rightarrow> 'b act) \<Rightarrow> 'b act" where
  "bnd m f s = (case m s of (Inl e, s') \<Rightarrow> (Inl e, s') | (Inr x, s') \<Rightarrow> f x s')"

definition raise :: "exn \<Rightarrow> 'a act" where
  "raise e s = (Inl e, s)"

definition rpc :: "call \<Rightarrow> exn + 'a \<Rightarrow> 'a act" where
  "rpc c r s = (r, fst s, snd s @ [Rpc c])"

definition assign :: "(pool \<Rightarrow> pool) \<Rightarrow> unit act" where
  "assign f s = (Inr (), f (fst s), snd s)"

subsection \<open>\<^verbatim>\<open>arbitrage_bot.py\<close>\<close>

definition fetch_token_info :: "chain \<Rightarrow> string \<Rightarrow> (string \<times> nat) act" where
  "fetch_token_info c token_address =
     bnd (rpc (Symbol token_address) (symbol_call c token_address)) (\<lambda>sym.
     bnd (rpc (Decimals token_address) (decimals_call c token_address)) (\<lambda>dec.
     ret (sym, dec)))"

text \<open>The body of the first \<^verbatim>\<open>try\<close> of \<^verbatim>\<open>update_tokens_and_reserves\<close>.\<close>

definition resolve_tokens :: "chain \<Rightarrow> unit act" where
  "resolve_tokens c s =
     (if token0 (fst s) = None then
        bnd (rpc (Token0 (address (fst s))) (token0_call c (address (fst s)))) (\<lambda>t0.
        bnd (assign (\<lambda>p. p\<lparr>token0 := Some t0\<rparr>)) (\<lambda>_.
        bnd (rpc (Token1 (address (fst s))) (token1_call c (address (fst s)))) (\<lambda>t1.
        bnd (assign (\<lambda>p. p\<lparr>token1 := Some t1\<rparr>)) (\<lambda>_.
        bnd (fetch_token_info c t0) (\<lambda>info0.
        bnd (fetch_token_info c t1) (\<lambda>info1.
        assign (\<lambda>p. p\<lparr>token0_decimals := Some (snd info0),
                        token1_decimals := Some (snd info1),
                        token0_symbol := Some (fst info0),
                        token1_symbol := Some (fst info1)\<rparr>))))))) s
      else ret () s)"

text \<open>
  The body of the second \<^verbatim>\<open>try\<close>. \<^verbatim>\<open>10 ** None\<close> raises \<open>TypeError\<close>.
\<close>

definition fetch_reserves :: "chain \<Rightarrow> unit act" where
  "fetch_reserves c s =
     bnd (rpc (GetReserves (address (fst s))) (getReserves_call c (address (fst s)))) (\<lambda>(r0, r1, ts).
       (case token0_decimals (fst s) of
          None \<Rightarrow> raise TypeError
        | Some d0 \<Rightarrow>
            bnd (assign (\<lambda>p. p\<lparr>reserve0 := real r0 / 10 ^ d0\<rparr>)) (\<lambda>_.
              (case token1_decimals (fst s) of
                 None \<Rightarrow> raise TypeError
               | Some d1 \<Rightarrow> assign (\<lambda>p. p\<lparr>reserve1 := real r1 / 10 ^ d1\<rparr>))))) s"

definition update_tokens_and_reserves :: "chain \<Rightarrow> unit act" where
  "update_tokens_and_reserves c s =
     (if \<not> is_valid_pair (fst s) then (Inr (), s)
      else
        (case resolve_tokens c s of
           (Inl e, p, tr) \<Rightarrow>
             if e = BadFunctionCallOutput then (Inr (), p\<lparr>is_valid_pair := False\<rparr>, tr)
             else (Inl e, p, tr)
         | (Inr _, s') \<Rightarrow>
             (case fetch_reserves c s' of
                (Inl e, p, tr) \<Rightarrow>
                  if e = BadFunctionCallOutput
                  then (Inr (), p\<lparr>is_valid_pair := False\<rparr>, tr @ [Print_invalid_reserves (address p)])
                  else (Inl e, p, tr)
              | (Inr _, s'') \<Rightarrow> (Inr (), s''))))"

definition price_token0_to_token1 :: "pool \<Rightarrow> real" where
  "price_token0_to_token1 p = (if reserve0 p = 0 then 0 else (reserve1 p / reserve0 p) * 0.997)"

definition price_token1_to_token0 :: "pool \<Rightarrow> real" where
  "price_token1_to_token0 p = (if reserve1 p = 0 then 0 else (reserve0 p / reserve1 p) * 0.997)"

text \<open>
  \<^verbatim>\<open>nodes\<close> is a set of \<^verbatim>\<open>Optional[str]\<close>: it is kept as the list of its elements in
  the order of their first insertion. \<open>add_node\<close> is \<^verbatim>\<open>set.add\<close>.
\<close>

definition add_node :: "'t \<Rightarrow> 't list \<Rightarrow> 't list" where
  "add_node t nodes = (if t \<in> set nodes then nodes else nodes @ [t])"

text \<open>What one valid pool adds to the graph, after its update.\<close>

definition pool_nodes :: "pool \<Rightarrow> string option list \<Rightarrow> string option list" where
  "pool_nodes p nodes = add_node (token1 p) (add_node (token0 p) nodes)"

definition pool_edges :: "pool \<Rightarrow> (string option, pool) edge list" where
  "pool_edges p =
     (if price_token0_to_token1 p > 0
      then [(token0 p, token1 p, - ln (price_token0_to_token1 p), p)] else []) @
     (if price_token1_to_token0 p > 0
      then [(token1 p, token0 p, - ln (price_token1_to_token0 p), p)] else [])"

text \<open>
  The loop of \<^verbatim>\<open>build_rate_graph\<close> and of \<^verbatim>\<open>build_graph\<close>, which differ only in
  the update method they call. The pools are objects that the loop mutates: the result
  holds them as they are after the loop. An exception leaves the loop at once.
\<close>

fun build_loop ::
  "unit act \<Rightarrow> pool list \<Rightarrow> string option list \<times> (string option, pool) edge list \<times> event list
     \<Rightarrow> (exn + pool list \<times> string option list \<times> (string option, pool) edge list) \<times> event list" where
  "build_loop upd [] (nodes, edges, tr) = (Inr ([], nodes, edges), tr)"
| "build_loop upd (p # ps) (nodes, edges, tr) =
     (case upd (p, tr) of
        (Inl e, p', tr') \<Rightarrow> (Inl e, tr')
      | (Inr _, p', tr') \<Rightarrow>
          (case (if \<not> is_valid_pair p' then build_loop upd ps (nodes, edges, tr')
                 else build_loop upd ps (pool_nodes p' nodes, edges @ pool_edges p', tr')) of
             (Inl e, tr'') \<Rightarrow> (Inl e, tr'')
           | (Inr (ps', g), tr'') \<Rightarrow> (Inr (p' # ps', g), tr'')))"

definition build_rate_graph ::
  "chain \<Rightarrow> pool list \<Rightarrow> event list
     \<Rightarrow> (exn + pool list \<times> string option list \<times> (string option, pool) edge list) \<times> event list" where
  "build_rate_graph c ps tr = build_loop (update_tokens_and_reserves c) ps ([], [], tr)"

subsection \<open>The discovery bot\<close>

text \<open>A call whose failure \<^verbatim>\<open>fetch_token_info\<close> turns into \<open>None\<close>.\<close>

definition optional_call :: "call \<Rightarrow> exn + 'a \<Rightarrow> 'a option act" where
  "optional_call c r s =
     (case r of
        Inr x \<Rightarrow> (Inr (Some x), fst s, snd s @ [Rpc c])
      | Inl e \<Rightarrow>
          if e = BadFunctionCallOutput \<or> e = ContractLogicError
          then (Inr None, fst s, snd s @ [Rpc c])
          else (Inl e, fst s, snd s @ [Rpc c]))"

definition fetch_token_info_disc :: "chain \<Rightarrow> string \<Rightarrow> (string option \<times> nat option) act" where
  "fetch_token_info_disc c addr =
     bnd (optional_call (Symbol addr) (symbol_call c addr)) (\<lambda>sym.
     bnd (optional_call (Decimals addr) (decimals_call c addr)) (\<lambda>dec.
     ret (sym, dec)))"

definition resolve_tokens_disc :: "chain \<Rightarrow> unit act" where
  "resolve_tokens_disc c s =
     bnd (rpc (Token0 (address (fst s))) (token0_call c (address (fst s)))) (\<lambda>t0.
     bnd (assign (\<lambda>p. p\<lparr>token0 := Some t0\<rparr>)) (\<lambda>_.
     bnd (rpc (Token1 (address (fst s))) (token1_call c (address (fst s)))) (\<lambda>t1.
     bnd (assign (\<lambda>p. p\<lparr>token1 := Some t1\<rparr>)) (\<lambda>_.
     bnd (fetch_token_info_disc c t0) (\<lambda>i0.
     bnd (fetch_token_info_disc c t1) (\<lambda>i1.
     assign (\<lambda>p. p\<lparr>token0_symbol := fst i0, token0_decimals := snd i0,
                     token1_symbol := fst i1, token1_decimals := snd i1\<rparr>))))))) s"

text \<open>\<^verbatim>\<open>if self.token0_decimals: r0 /= 10 ** self.token0_decimals\<close>: \<open>None\<close> and 0 do not scale.\<close>

definition scale :: "nat option \<Rightarrow> nat \<Rightarrow> real" where
  "scale dec r = (case dec of None \<Rightarrow> real r | Some k \<Rightarrow> if k = 0 then real r else real r / 10 ^ k)"

definition fetch_reserves_disc :: "chain \<Rightarrow> unit act" where
  "fetch_reserves_disc c s =
     bnd (rpc (GetReserves (address (fst s))) (getReserves_call c (address (fst s)))) (\<lambda>(r0, r1, ts).
       assign (\<lambda>p. p\<lparr>reserve0 := scale (token0_decimals (fst s)) r0,
                       reserve1 := scale (token1_decimals (fst s)) r1\<rparr>)) s"

definition caught_disc :: "exn \<Rightarrow> bool" where
  "caught_disc e \<longleftrightarrow> e = BadFunctionCallOutput \<or> e = ContractLogicError"

definition update_reserves_disc :: "chain \<Rightarrow> unit act" where
  "update_reserves_disc c s =
     (case fetch_reserves_disc c s of
        (Inl e, p, tr) \<Rightarrow>
          if caught_disc e
          then (Inr (), p\<lparr>is_valid_pair := False\<rparr>, tr @ [Warning_reserve_failed (address p)])
          else (Inl e, p, tr)
      | (Inr _, s') \<Rightarrow> (Inr (), s'))"

definition update :: "chain \<Rightarrow> unit act" where
  "update c s =
     (if \<not> is_valid_pair (fst s) then (Inr (), s)
      else if token0 (fst s) = None then
        (case resolve_tokens_disc c s of
           (Inl e, p, tr) \<Rightarrow>
             if caught_disc e
             then (Inr (), p\<lparr>is_valid_pair := False\<rparr>, tr @ [Warning_invalid_pair (address p)])
             else (Inl e, p, tr)
         | (Inr _, s') \<Rightarrow> update_reserves_disc c s')
      else update_reserves_disc c s)"

text \<open>
  \<^verbatim>\<open>price0_to_1\<close> and \<^verbatim>\<open>price1_to_0\<close> compute what \<^verbatim>\<open>price_token0_to_token1\<close> and
  \<^verbatim>\<open>price_token1_to_token0\<close> do, and \<^verbatim>\<open>build_graph\<close> adds the same nodes and edges as
  \<^verbatim>\<open>build_rate_graph\<close>; its debug line is left out.
\<close>

definition build_graph ::
  "chain \<Rightarrow> pool list \<Rightarrow> event list
     \<Rightarrow> (exn + pool list \<times> string option list \<times> (string option, pool) edge list) \<times> event list" where
  "build_graph c ps tr = build_loop (update c) ps ([], [], tr)"

section \<open>Reporting and the monitor loops\<close>

fun join :: "string \<Rightarrow> string list \<Rightarrow> string" where
  "join sep [] = []"
| "join sep [x] = x"
| "join sep (x # y # ys) = x @ sep @ join sep (y # ys)"

text \<open>\<^verbatim>\<open>sep.join(xs)\<close> raises \<open>TypeError\<close> on an item that is \<open>None\<close>.\<close>

definition str_join :: "string \<Rightarrow> string option list \<Rightarrow> exn + string" where
  "str_join sep xs = (case those xs of None \<Rightarrow> Inl TypeError | Some ys \<Rightarrow> Inr (join sep ys))"

text \<open>The arrow U+2192 in UTF-8; \<^verbatim>\<open>arbitrage_bot.py\<close> puts a space on each side of it.\<close>

definition arrow :: string where
  "arrow = [CHR 0xE2, CHR 0x86, CHR 0x92]"

definition spaced_arrow :: string where
  "spaced_arrow = CHR '' '' # arrow @ [CHR '' '']"

text \<open>
  \<^verbatim>\<open>next(w for u, v, w, _ in edges if u == cyc[0] and v == cyc[1])\<close>: the weight of the
  first edge of the list that joins the first two tokens of the cycle.
\<close>

fun first_edge_weight :: "('t, 'p) edge list \<Rightarrow> 't list \<Rightarrow> exn + real" where
  "first_edge_weight [] cyc = Inl StopIteration"
| "first_edge_weight ((u, v, w, p) # es) cyc =
     (case cyc of
        [] \<Rightarrow> Inl IndexError
      | c0 # rest \<Rightarrow>
          if u = c0 then
            (case rest of
               [] \<Rightarrow> Inl IndexError
             | c1 # _ \<Rightarrow> if v = c1 then Inr w else first_edge_weight es cyc)
          else first_edge_weight es cyc)"

definition pool_line :: "pool \<Rightarrow> string option \<times> string option \<times> string" where
  "pool_line p = (token0_symbol p, token1_symbol p, address p)"

text \<open>
  What both monitors do once they decide to report: remember the key, compute the gain,
  write the opportunity. The set \<open>seen\<close> is mutated before the gain is computed.
\<close>

definition announce ::
  "string \<Rightarrow> string option list \<Rightarrow> pool list \<Rightarrow> (string option, pool) edge list
     \<Rightarrow> string set \<times> event list \<Rightarrow> (exn + unit) \<times> string set \<times> event list" where
  "announce key cyc cycp edges s =
     (case first_edge_weight edges cyc of
        Inl e \<Rightarrow> (Inl e, insert key (fst s), snd s)
      | Inr w \<Rightarrow> (Inr (), insert key (fst s), snd s @ [Arbitrage key (exp (- w)) (map pool_line cycp)]))"

definition report ::
  "string option list \<times> pool list \<Rightarrow> (string option, pool) edge list
     \<Rightarrow> string set \<times> event list \<Rightarrow> (exn + unit) \<times> string set \<times> event list" where
  "report found edges s =
     (case found of (cycle_tokens, cycle_pools) \<Rightarrow>
        if cycle_tokens = [] then (Inr (), s)
        else
          (case str_join spaced_arrow cycle_tokens of
             Inl e \<Rightarrow> (Inl e, s)
           | Inr key \<Rightarrow>
               if key \<notin> fst s then announce key cycle_tokens cycle_pools edges s
               else (Inr (), s)))"

definition report_disc ::
  "bool \<Rightarrow> string option list \<times> pool list \<Rightarrow> (string option, pool) edge list
     \<Rightarrow> string set \<times> event list \<Rightarrow> (exn + unit) \<times> string set \<times> event list" where
  "report_disc LOG_ARBITRAGE found edges s =
     (case found of (cyc, cycp) \<Rightarrow>
        if cyc = [] then (Inr (), s)
        else
          (case str_join arrow cyc of
             Inl e \<Rightarrow> (Inl e, s)
           | Inr key \<Rightarrow>
               if key \<notin> fst s \<or> LOG_ARBITRAGE then announce key cyc cycp edges s
               else (Inr (), s)))"

text \<open>
  The state of \<^verbatim>\<open>monitor_arbitrage\<close>: its pools, made once before the loop, the keys it
  has seen, and what it has done so far.
\<close>

record monitor_state =
  the_pools :: "pool list"
  seen_cycles :: "string set"
  printed :: "event list"

text \<open>
  One turn of the \<^verbatim>\<open>while True\<close> loop of \<^verbatim>\<open>monitor_arbitrage\<close>. \<open>order\<close> is the order
  in which the detector iterates the set of nodes. \<open>Inl\<close> is an exception that leaves the
  loop and the function, since nothing catches it.
\<close>

definition tick ::
  "(string option list \<Rightarrow> string option list) \<Rightarrow> chain \<Rightarrow> monitor_state
     \<Rightarrow> (exn + monitor_state) option" where
  "tick order c st =
     (case build_rate_graph c (the_pools st) (printed st) of
        (Inl e, tr) \<Rightarrow> Some (Inl e)
      | (Inr (ps, nodes, edges), tr) \<Rightarrow>
          (case find_negative_cycle (order nodes) edges of
             None \<Rightarrow> None
           | Some (Inl e) \<Rightarrow> Some (Inl e)
           | Some (Inr found) \<Rightarrow>
               (case report found edges (seen_cycles st, tr) of
                  (Inl e, s) \<Rightarrow> Some (Inl e)
                | (Inr _, seen, tr') \<Rightarrow>
                    Some (Inr \<lparr>the_pools = ps, seen_cycles = seen, printed = tr' @ [Sleep]\<rparr>))))"

text \<open>
  The loop never ends by itself: the model runs it for as many ticks as it is given
  answers of the chain.
\<close>

fun monitor_loop ::
  "(string option list \<Rightarrow> string option list) \<Rightarrow> chain list \<Rightarrow> monitor_state
     \<Rightarrow> (exn + monitor_state) option" where
  "monitor_loop order [] st = Some (Inr st)"
| "monitor_loop order (c # cs) st =
     (case tick order c st of
        None \<Rightarrow> None
      | Some (Inl e) \<Rightarrow> Some (Inl e)
      | Some (Inr st') \<Rightarrow> monitor_loop order cs st')"

definition monitor_arbitrage ::
  "(string option list \<Rightarrow> string option list) \<Rightarrow> string list \<Rightarrow> chain list
     \<Rightarrow> (exn + monitor_state) option" where
  "monitor_arbitrage order POOL_ADDRESSES cs =
     monitor_loop order cs \<lparr>the_pools = map Pool POOL_ADDRESSES, seen_cycles = {}, printed = []\<rparr>"

text \<open>
  The discovery bot. What \<^verbatim>\<open>load_pool_addresses()\<close> gives at a tick is an input: the
  addresses of the well-formed lines of the pairs file, or the exception that
  \<^verbatim>\<open>to_checksum_address\<close> raises on a line. The body of the \<^verbatim>\<open>try\<close> returns or raises,
  with the set \<open>seen\<close> and the trace as they are then.
\<close>

definition try_body_disc ::
  "bool \<Rightarrow> (string option list \<Rightarrow> string option list) \<Rightarrow> chain \<times> (exn + string list)
     \<Rightarrow> string set \<times> event list \<Rightarrow> ((exn + unit) \<times> string set \<times> event list) option" where
  "try_body_disc LOG_ARBITRAGE order env s =
     (case snd env of
        Inl e \<Rightarrow> Some (Inl e, s)
      | Inr addrs \<Rightarrow>
          (case build_graph (fst env) (map Pool addrs) (snd s) of
             (Inl e, tr) \<Rightarrow> Some (Inl e, fst s, tr)
           | (Inr (ps, nodes, edges), tr) \<Rightarrow>
               (case find_negative_cycle_disc (order nodes) edges of
                  None \<Rightarrow> None
                | Some (Inl e) \<Rightarrow> Some (Inl e, fst s, tr)
                | Some (Inr found) \<Rightarrow> Some (report_disc LOG_ARBITRAGE found edges (fst s, tr)))))"

definition tick_disc ::
  "bool \<Rightarrow> (string option list \<Rightarrow> string option list) \<Rightarrow> chain \<times> (exn + string list)
     \<Rightarrow> string set \<times> event list \<Rightarrow> (string set \<times> event list) option" where
  "tick_disc LOG_ARBITRAGE order env s =
     (case try_body_disc LOG_ARBITRAGE order env s of
        None \<Rightarrow> None
      | Some (Inl e, seen, tr) \<Rightarrow> Some (seen, tr @ [Log_exception e, Sleep])
      | Some (Inr _, seen, tr) \<Rightarrow> Some (seen, tr @ [Sleep]))"

fun monitor_loop_disc ::
  "bool \<Rightarrow> (string option list \<Rightarrow> string option list) \<Rightarrow> (chain \<times> (exn + string list)) list
     \<Rightarrow> string set \<times> event list \<Rightarrow> (string set \<times> event list) option" where
  "monitor_loop_disc LOG_ARBITRAGE order [] s = Some s"
| "monitor_loop_disc LOG_ARBITRAGE order (env # envs) s =
     (case tick_disc LOG_ARBITRAGE order env s of
        None \<Rightarrow> None
      | Some s' \<Rightarrow> monitor_loop_disc LOG_ARBITRAGE order envs s')"

definition monitor ::
  "bool \<Rightarrow> (string option list \<Rightarrow> string option list) \<Rightarrow> (chain \<times> (exn + string list)) list
     \<Rightarrow> (string set \<times> event list) option" where
  "monitor LOG_ARBITRAGE order envs = monitor_loop_disc LOG_ARBITRAGE order envs ({}, [])"

section \<open>Example inputs\<close>

text \<open>
  A chain on which the pools of a table answer: an address of the table gives its two
  tokens and its raw reserves, any other address raises \<open>BadFunctionCallOutput\<close>; every
  token has its own address as symbol and 0 decimals.
\<close>

definition table_chain :: "(string \<times> string \<times> string \<times> nat \<times> nat) list \<Rightarrow> chain" where
  "table_chain tab =
     \<lparr>token0_call = (\<lambda>a. case map_of tab a of
                              None \<Rightarrow> Inl BadFunctionCallOutput
                            | Some (t0, t1, r0, r1) \<Rightarrow> Inr t0),
      token1_call = (\<lambda>a. case map_of tab a of
                              None \<Rightarrow> Inl BadFunctionCallOutput
                            | Some (t0, t1, r0, r1) \<Rightarrow> Inr t1),
      symbol_call = (\<lambda>t. Inr t),
      decimals_call = (\<lambda>t. Inr 0),
      getReserves_call = (\<lambda>a. case map_of tab a of
                              None \<Rightarrow> Inl BadFunctionCallOutput
                            | Some (t0, t1, r0, r1) \<Rightarrow> Inr (r0, r1, 0))\<rparr>"

text \<open>A pool as it is after a successful update on such a chain.\<close>

definition resolved_pool :: "string \<Rightarrow> string \<Rightarrow> string \<Rightarrow> real \<Rightarrow> real \<Rightarrow> pool" where
  "resolved_pool addr t0 t1 r0 r1 =
     \<lparr>address = addr, token0 = Some t0, token1 = Some t1,
      token0_decimals = Some 0, token1_decimals = Some 0,
      token0_symbol = Some t0, token1_symbol = Some t1,
      reserve0 = r0, reserve1 = r1, is_valid_pair = True\<rparr>"

definition update_calls :: "string \<Rightarrow> string \<Rightarrow> string \<Rightarrow> event list" where
  "update_calls a t0 t1 =
     [Rpc (Token0 a), Rpc (Token1 a), Rpc (Symbol t0), Rpc (Decimals t0),
      Rpc (Symbol t1), Rpc (Decimals t1), Rpc (GetReserves a)]"

text \<open>A chain on which every call raises the same exception.\<close>

definition broken_chain :: "exn \<Rightarrow> chain" where
  "broken_chain e =
     \<lparr>token0_call = (\<lambda>a. Inl e), token1_call = (\<lambda>a. Inl e),
      symbol_call = (\<lambda>t. Inl e), decimals_call = (\<lambda>t. Inl e),
      getReserves_call = (\<lambda>a. Inl e)\<rparr>"

text \<open>
  Two pools of the same pair of tokens, with opposite reserves: buying B in the first and
  selling it in the second multiplies the amount by \<open>1.994 * 1.994\<close>.
\<close>

definition two_pools :: chain where
  "two_pools = table_chain [(''P1'', ''A'', ''B'', 1, 2), (''P2'', ''A'', ''B'', 2, 1)]"

section \<open>Vocabulary of the detector's properties\<close>

text \<open>
  A graph as the builders make it: the enumeration of the node set has no repeated
  element, and both ends of every edge are nodes.
\<close>

definition well_formed :: "'t list \<Rightarrow> ('t, 'p) edge list \<Rightarrow> bool" where
  "well_formed nodes edges \<longleftrightarrow>
     distinct nodes \<and> list_all (\<lambda>(u, v, w, p). u \<in> set nodes \<and> v \<in> set nodes) edges"

text \<open>
  \<open>k\<close> steps along the predecessor links from \<open>x\<close>; \<open>None\<close> when a node on the way has
  no predecessor.
\<close>

fun piter :: "'p parents \<Rightarrow> nat \<Rightarrow> nat \<Rightarrow> nat option" where
  "piter parent 0 x = Some x"
| "piter parent (Suc k) x =
     (case parent ! x of None \<Rightarrow> None | Some (y, pl) \<Rightarrow> piter parent k y)"

text \<open>
  The invariant of the relaxation loop. Every index that the dictionary gives is below
  the length of the arrays. A predecessor link of \<open>v\<close>, set when an edge into \<open>v\<close> relaxed,
  names a node \<open>u\<close> and the pool of an edge of the graph from \<open>u\<close> to \<open>v\<close> whose weight \<open>w\<close>
  still satisfies \<open>d ! u + w \<le> d ! v\<close>. The stamps are a bookkeeping of the proof, not of
  the program: a stamp grows when the node's distance is lowered, and a link whose
  target is not younger than its source holds with strict inequality.
\<close>

definition idx_bounded :: "('t \<rightharpoonup> nat) \<Rightarrow> nat \<Rightarrow> bool" where
  "idx_bounded idx n \<longleftrightarrow> (\<forall>t i. idx t = Some i \<longrightarrow> i < n)"

definition link_ok ::
  "('t \<rightharpoonup> nat) \<Rightarrow> ('t, 'p) edge list \<Rightarrow> real list \<Rightarrow> (nat \<Rightarrow> nat) \<Rightarrow> nat \<Rightarrow> (nat \<times> 'p) option \<Rightarrow> bool" where
  "link_ok idx es d stamp v l =
     (case l of
        None \<Rightarrow> True
      | Some (u, p) \<Rightarrow>
          u < length d \<and>
          (\<exists>ut vt w. (ut, vt, w, p) \<in> set es \<and> idx ut = Some u \<and> idx vt = Some v \<and>
             d ! u + w \<le> d ! v \<and> (stamp v \<le> stamp u \<longrightarrow> d ! u + w < d ! v)))"

definition bf_inv :: "('t \<rightharpoonup> nat) \<Rightarrow> ('t, 'p) edge list \<Rightarrow> real list \<Rightarrow> 'p parents \<Rightarrow> bool" where
  "bf_inv idx es d parent \<longleftrightarrow>
     length parent = length d \<and>
     (\<exists>stamp M. (\<forall>x. stamp x \<le> (M::nat)) \<and> (\<forall>v < length d. link_ok idx es d stamp v (parent ! v)))"

text \<open>
  A closed walk of the graph: the tokens \<open>T\<close>, one more than the pools \<open>P\<close>, begin and end
  with the same token, and hop \<open>i\<close>, from token \<open>i\<close> to token \<open>i + 1\<close>, is an edge of the
  graph of weight \<open>ws ! i\<close> backed by pool \<open>i\<close>.
\<close>

definition closed_walk :: "('t, 'p) edge list \<Rightarrow> 't list \<Rightarrow> 'p list \<Rightarrow> real list \<Rightarrow> bool" where
  "closed_walk edges T P ws \<longleftrightarrow>
     length T = length P + 1 \<and> length ws = length P \<and> hd T = last T \<and>
     (\<forall>i < length P. (T ! i, T ! Suc i, ws ! i, P ! i) \<in> set edges)"

section \<open>Vocabulary of the reporting\<close>

text \<open>The opportunity events of a trace that carry the key \<open>k\<close>, and their number.\<close>

fun is_arbitrage :: "string \<Rightarrow> event \<Rightarrow> bool" where
  "is_arbitrage k (Arbitrage k' g ps) = (k' = k)"
| "is_arbitrage k e = False"

definition opportunities :: "string \<Rightarrow> event list \<Rightarrow> nat" where
  "opportunities k tr = length (filter (is_arbitrage k) tr)"





text \<open>A method of a pool that adds no opportunity event for \<open>k\<close> to the trace.\<close>

definition quiet :: "string \<Rightarrow> 'a act \<Rightarrow> bool" where
  "quiet k m \<longleftrightarrow> (\<forall>s. opportunities k (snd (snd (m s))) = opportunities k (snd s))"

section \<open>The empty graph\<close>

lemma relax_passes_no_edges:
  "\<exists>d p n. relax_passes k idx [] (d0, p0, n0) = Inr (d, p, n)"
  by (cases k) auto

lemma relax_passes_disc_no_edges:
  "\<exists>d p n. relax_passes_disc k idx [] (d0, p0, n0) = Inr (d, p, n)"
  by (induction k arbitrary: d0 p0 n0) auto

lemma find_negative_cycle_no_edges: "find_negative_cycle nodes [] = Some (Inr ([], []))"
proof -
  obtain d p n where "bellman_ford nodes ([] :: ('a, 'b) edge list) = Inr (d, p, n)"
    unfolding bellman_ford_def using relax_passes_no_edges by blast
  then show ?thesis by (simp add: find_negative_cycle_def)
qed

lemma find_negative_cycle_disc_no_edges: "find_negative_cycle_disc nodes [] = Some (Inr ([], []))"
proof -
  obtain d p n where "bellman_ford_disc nodes ([] :: ('a, 'b) edge list) = Inr (d, p, n)"
    unfolding bellman_ford_disc_def using relax_passes_disc_no_edges by blast
  then show ?thesis by (simp add: find_negative_cycle_disc_def)
qed

text \<open>
  Claim C9. With an empty pool list the graph builder of either program returns no node
  and no edge, the detector returns the empty cycle on that graph, and the tick ends
  normally: \<^verbatim>\<open>monitor_arbitrage\<close> goes on to its sleep with its state unchanged, and the
  discovery bot logs no exception.
\<close>

theorem empty_pool_list:
  "build_rate_graph c [] tr = (Inr ([], [], []), tr)
   \<and> build_graph c [] tr = (Inr ([], [], []), tr)
   \<and> find_negative_cycle [] ([] :: (string option, pool) edge list) = Some (Inr ([], []))
   \<and> find_negative_cycle_disc [] ([] :: (string option, pool) edge list) = Some (Inr ([], []))
   \<and> tick order c \<lparr>the_pools = [], seen_cycles = seen, printed = tr\<rparr>
       = Some (Inr \<lparr>the_pools = [], seen_cycles = seen, printed = tr @ [Sleep]\<rparr>)
   \<and> tick_disc verbose order (c, Inr []) (seen, tr) = Some (seen, tr @ [Sleep])"
  by (simp add: build_rate_graph_def build_graph_def find_negative_cycle_no_edges
      find_negative_cycle_disc_no_edges tick_def report_def tick_disc_def try_body_disc_def
      report_disc_def)

section \<open>The graph builder\<close>

lemmas act_defs = ret_def bnd_def raise_def rpc_def assign_def

lemma set_add_node: "set (add_node t ns) = insert t (set ns)"
  by (auto simp: add_node_def)

lemma distinct_add_node: "distinct ns \<Longrightarrow> distinct (add_node t ns)"
  by (auto simp: add_node_def)

lemma set_pool_nodes: "set (pool_nodes p ns) = {token0 p, token1 p} \<union> set ns"
  by (auto simp: pool_nodes_def set_add_node)

lemma distinct_pool_nodes: "distinct ns \<Longrightarrow> distinct (pool_nodes p ns)"
  by (simp add: pool_nodes_def distinct_add_node)

text \<open>
  The graph that the loop returns: the edges of the pools that are valid after their
  update, in the order of the pools, and the tokens of those pools.
\<close>

lemma build_loop_graph:
  "build_loop upd ps (n0, e0, tr0) = (Inr (ps', nodes, edges), tr') \<Longrightarrow>
     edges = e0 @ concat (map pool_edges (filter is_valid_pair ps')) \<and>
     set nodes = set n0 \<union> (\<Union>p \<in> set (filter is_valid_pair ps'). {token0 p, token1 p}) \<and>
     length ps' = length ps"
proof (induction ps arbitrary: n0 e0 tr0 ps' nodes edges tr')
  case Nil
  then show ?case by simp
next
  case (Cons p ps)
  from Cons.prems obtain p1 tr1 where u: "upd (p, tr0) = (Inr (), p1, tr1)"
    by (cases "upd (p, tr0)") (auto split: sum.splits)
  show ?case
  proof (cases "is_valid_pair p1")
    case True
    with Cons.prems u obtain qs where
      r: "build_loop upd ps (pool_nodes p1 n0, e0 @ pool_edges p1, tr1) = (Inr (qs, nodes, edges), tr')"
      and ps': "ps' = p1 # qs"
      by (auto split: sum.splits prod.splits)
    from Cons.IH[OF r] True ps' show ?thesis
      by (auto simp: set_pool_nodes)
  next
    case False
    with Cons.prems u obtain qs where
      r: "build_loop upd ps (n0, e0, tr1) = (Inr (qs, nodes, edges), tr')"
      and ps': "ps' = p1 # qs"
      by (auto split: sum.splits prod.splits)
    from Cons.IH[OF r] False ps' show ?thesis
      by auto
  qed
qed

lemma pool_edges_pool: "e \<in> set (pool_edges p) \<Longrightarrow> snd (snd (snd e)) = p"
  by (auto simp: pool_edges_def split: if_splits)

lemma price01_pos_iff:
  "0 < price_token0_to_token1 p \<longleftrightarrow> reserve0 p \<noteq> 0 \<and> 0 < (reserve1 p / reserve0 p) * 0.997"
  by (simp add: price_token0_to_token1_def)

lemma price10_pos_iff:
  "0 < price_token1_to_token0 p \<longleftrightarrow> reserve1 p \<noteq> 0 \<and> 0 < (reserve0 p / reserve1 p) * 0.997"
  by (simp add: price_token1_to_token0_def)

text \<open>A zero reserve is the denominator of one price and the numerator of the other.\<close>

lemma zero_reserve_prices:
  "reserve0 p = 0 \<or> reserve1 p = 0 \<Longrightarrow>
     price_token0_to_token1 p = 0 \<and> price_token1_to_token0 p = 0 \<and> pool_edges p = []"
  by (auto simp: price_token0_to_token1_def price_token1_to_token0_def pool_edges_def)

lemma edges_of_pool:
  assumes "edges = concat (map pool_edges (filter is_valid_pair ps'))"
    and "p \<in> set ps'" and "is_valid_pair p"
  shows "{e \<in> set edges. snd (snd (snd e)) = p} = set (pool_edges p)"
  using assms by (auto dest: pool_edges_pool)

lemma update_table_chain:
  "map_of tab a = Some (t0, t1, r0, r1) \<Longrightarrow>
   update_tokens_and_reserves (table_chain tab) (Pool a, tr) =
     (Inr (), resolved_pool a t0 t1 (real r0) (real r1), tr @ update_calls a t0 t1)"
  by (simp add: update_tokens_and_reserves_def resolve_tokens_def fetch_reserves_def
      fetch_token_info_def act_defs table_chain_def Pool_def resolved_pool_def update_calls_def)

text \<open>
  Claim C5, as amended. Let \<open>p\<close> be a pool that is valid after its update in
  \<^verbatim>\<open>build_rate_graph\<close>. Both its tokens are nodes of the graph. The edges of the graph
  that \<open>p\<close> backs are: the edge from token0 to token1 with weight
  \<open>- ln ((reserve1 / reserve0) * 0.997)\<close> exactly when reserve0 is not 0 and that product is
  positive, and the edge from token1 to token0 with weight
  \<open>- ln ((reserve0 / reserve1) * 0.997)\<close> exactly when reserve1 is not 0 and that product is
  positive. The price functions return these products, and 0 when the denominator reserve
  is 0. A reserve that is 0 gives price 0 and no edge in the direction of which it is the
  denominator, and, being the numerator of the opposite price, it gives price 0 and no
  edge in the opposite direction too.
\<close>

theorem valid_pool_edges:
  assumes "build_rate_graph c ps tr = (Inr (ps', nodes, edges), tr')"
    and "p \<in> set ps'" and "is_valid_pair p"
  shows "token0 p \<in> set nodes \<and> token1 p \<in> set nodes
    \<and> {e \<in> set edges. snd (snd (snd e)) = p} =
        (if reserve0 p \<noteq> 0 \<and> 0 < (reserve1 p / reserve0 p) * 0.997
         then {(token0 p, token1 p, - ln ((reserve1 p / reserve0 p) * 0.997), p)} else {}) \<union>
        (if reserve1 p \<noteq> 0 \<and> 0 < (reserve0 p / reserve1 p) * 0.997
         then {(token1 p, token0 p, - ln ((reserve0 p / reserve1 p) * 0.997), p)} else {})
    \<and> price_token0_to_token1 p = (if reserve0 p = 0 then 0 else (reserve1 p / reserve0 p) * 0.997)
    \<and> price_token1_to_token0 p = (if reserve1 p = 0 then 0 else (reserve0 p / reserve1 p) * 0.997)
    \<and> {e \<in> set edges. snd (snd (snd e)) = p} =
        (if 0 < price_token0_to_token1 p
         then {(token0 p, token1 p, - ln (price_token0_to_token1 p), p)} else {}) \<union>
        (if 0 < price_token1_to_token0 p
         then {(token1 p, token0 p, - ln (price_token1_to_token0 p), p)} else {})
    \<and> (0 < price_token0_to_token1 p \<longleftrightarrow> reserve0 p \<noteq> 0 \<and> 0 < (reserve1 p / reserve0 p) * 0.997)
    \<and> (0 < price_token1_to_token0 p \<longleftrightarrow> reserve1 p \<noteq> 0 \<and> 0 < (reserve0 p / reserve1 p) * 0.997)
    \<and> (reserve0 p = 0 \<or> reserve1 p = 0 \<longrightarrow>
          price_token0_to_token1 p = 0 \<and> price_token1_to_token0 p = 0
          \<and> (\<forall>u v w. (u, v, w, p) \<notin> set edges))"
proof -
  from assms(1) have g: "edges = concat (map pool_edges (filter is_valid_pair ps'))"
    and n: "set nodes = (\<Union>p \<in> set (filter is_valid_pair ps'). {token0 p, token1 p})"
    using build_loop_graph[of "update_tokens_and_reserves c" ps "[]" "[]" tr ps' nodes edges tr']
    by (simp_all add: build_rate_graph_def)
  have e: "{e \<in> set edges. snd (snd (snd e)) = p} = set (pool_edges p)"
    using edges_of_pool[OF g assms(2,3)] .
  have nodes: "token0 p \<in> set nodes \<and> token1 p \<in> set nodes"
    using n assms(2,3) by auto
  have p01: "price_token0_to_token1 p = (if reserve0 p = 0 then 0 else (reserve1 p / reserve0 p) * 0.997)"
    by (simp add: price_token0_to_token1_def)
  have p10: "price_token1_to_token0 p = (if reserve1 p = 0 then 0 else (reserve0 p / reserve1 p) * 0.997)"
    by (simp add: price_token1_to_token0_def)
  have shape: "set (pool_edges p) =
        (if 0 < price_token0_to_token1 p
         then {(token0 p, token1 p, - ln (price_token0_to_token1 p), p)} else {}) \<union>
        (if 0 < price_token1_to_token0 p
         then {(token1 p, token0 p, - ln (price_token1_to_token0 p), p)} else {})"
    by (simp add: pool_edges_def)
  have formula: "set (pool_edges p) =
        (if reserve0 p \<noteq> 0 \<and> 0 < (reserve1 p / reserve0 p) * 0.997
         then {(token0 p, token1 p, - ln ((reserve1 p / reserve0 p) * 0.997), p)} else {}) \<union>
        (if reserve1 p \<noteq> 0 \<and> 0 < (reserve0 p / reserve1 p) * 0.997
         then {(token1 p, token0 p, - ln ((reserve0 p / reserve1 p) * 0.997), p)} else {})"
    unfolding shape price01_pos_iff price10_pos_iff
    by (simp add: price_token0_to_token1_def price_token1_to_token0_def)
  have none: "reserve0 p = 0 \<or> reserve1 p = 0 \<Longrightarrow> (u, v, w, p) \<notin> set edges" for u v w
  proof
    assume z: "reserve0 p = 0 \<or> reserve1 p = 0" and "(u, v, w, p) \<in> set edges"
    then have "(u, v, w, p) \<in> {e \<in> set edges. snd (snd (snd e)) = p}" by simp
    then have "(u, v, w, p) \<in> set (pool_edges p)" unfolding e .
    with zero_reserve_prices[OF z] show False by simp
  qed
  have zero: "reserve0 p = 0 \<or> reserve1 p = 0 \<longrightarrow>
          price_token0_to_token1 p = 0 \<and> price_token1_to_token0 p = 0
          \<and> (\<forall>u v w. (u, v, w, p) \<notin> set edges)"
    using none zero_reserve_prices[of p] by blast
  have e1: "{e \<in> set edges. snd (snd (snd e)) = p} =
        (if reserve0 p \<noteq> 0 \<and> 0 < (reserve1 p / reserve0 p) * 0.997
         then {(token0 p, token1 p, - ln ((reserve1 p / reserve0 p) * 0.997), p)} else {}) \<union>
        (if reserve1 p \<noteq> 0 \<and> 0 < (reserve0 p / reserve1 p) * 0.997
         then {(token1 p, token0 p, - ln ((reserve0 p / reserve1 p) * 0.997), p)} else {})"
    using e formula by simp
  have e2: "{e \<in> set edges. snd (snd (snd e)) = p} =
        (if 0 < price_token0_to_token1 p
         then {(token0 p, token1 p, - ln (price_token0_to_token1 p), p)} else {}) \<union>
        (if 0 < price_token1_to_token0 p
         then {(token1 p, token0 p, - ln (price_token1_to_token0 p), p)} else {})"
    using e shape by simp
  from nodes e1 p01 p10 e2 price01_pos_iff[of p] price10_pos_iff[of p] zero
  show ?thesis by (intro conjI) blast+
qed

lemma build_one_pool:
  "build_rate_graph (table_chain [(a, t0, t1, r0, r1)]) [Pool a] [] =
     (Inr ([resolved_pool a t0 t1 (real r0) (real r1)],
           pool_nodes (resolved_pool a t0 t1 (real r0) (real r1)) [],
           pool_edges (resolved_pool a t0 t1 (real r0) (real r1))),
      update_calls a t0 t1)"
  by (simp add: build_rate_graph_def update_table_chain) (simp add: resolved_pool_def)

theorem valid_pool_edges_witness:
  "build_rate_graph (table_chain [(''P'', ''A'', ''B'', 1, 2)]) [Pool ''P''] [] =
     (Inr ([resolved_pool ''P'' ''A'' ''B'' 1 2],
           [Some ''A'', Some ''B''],
           pool_edges (resolved_pool ''P'' ''A'' ''B'' 1 2)),
      update_calls ''P'' ''A'' ''B'')
   \<and> is_valid_pair (resolved_pool ''P'' ''A'' ''B'' 1 2)
   \<and> Some ''A'' \<in> set [Some ''A'', Some ''B'']
   \<and> Some ''B'' \<in> set [Some ''A'', Some ''B'']
   \<and> price_token0_to_token1 (resolved_pool ''P'' ''A'' ''B'' 1 2) = 1.994
   \<and> price_token1_to_token0 (resolved_pool ''P'' ''A'' ''B'' 1 2) = 0.4985
   \<and> {e \<in> set (pool_edges (resolved_pool ''P'' ''A'' ''B'' 1 2)).
         snd (snd (snd e)) = resolved_pool ''P'' ''A'' ''B'' 1 2} =
       {(Some ''A'', Some ''B'', - ln 1.994, resolved_pool ''P'' ''A'' ''B'' 1 2),
        (Some ''B'', Some ''A'', - ln 0.4985, resolved_pool ''P'' ''A'' ''B'' 1 2)}"
proof -
  let ?p = "resolved_pool ''P'' ''A'' ''B'' 1 2"
  have b: "build_rate_graph (table_chain [(''P'', ''A'', ''B'', 1, 2)]) [Pool ''P''] [] =
     (Inr ([?p], [Some ''A'', Some ''B''], pool_edges ?p), update_calls ''P'' ''A'' ''B'')"
    using build_one_pool[of "''P''" "''A''" "''B''" 1 2]
    by (simp add: pool_nodes_def add_node_def resolved_pool_def)
  have m: "?p \<in> set [?p]" by simp
  have v: "is_valid_pair ?p" by (simp add: resolved_pool_def)
  have r: "reserve0 ?p = 1" "reserve1 ?p = 2" by (simp_all add: resolved_pool_def)
  have t: "token0 ?p = Some ''A''" "token1 ?p = Some ''B''"
    by (simp_all add: resolved_pool_def)
  from valid_pool_edges[OF b m v] b v show ?thesis
    unfolding r t by (simp add: insert_commute)
qed

text \<open>
  The claim says that a zero reserve leaves the opposite direction unaffected. With raw
  reserves 0 and 100 the pool has a positive reserve1, and the graph has its two tokens
  but no edge, in particular none from token1 to token0: the backward price is 0.
\<close>

theorem zero_reserve_counterexample:
  "build_rate_graph (table_chain [(''P'', ''A'', ''B'', 0, 100)]) [Pool ''P''] [] =
     (Inr ([resolved_pool ''P'' ''A'' ''B'' 0 100], [Some ''A'', Some ''B''], []),
      update_calls ''P'' ''A'' ''B'')
   \<and> reserve1 (resolved_pool ''P'' ''A'' ''B'' 0 100) = 100
   \<and> price_token1_to_token0 (resolved_pool ''P'' ''A'' ''B'' 0 100) = 0"
  using build_one_pool[of "''P''" "''A''" "''B''" 0 100]
  by (simp add: pool_nodes_def add_node_def resolved_pool_def pool_edges_def
      price_token0_to_token1_def price_token1_to_token0_def)

section \<open>Exceptions during a tick\<close>

lemma update_broken_chain:
  "update_tokens_and_reserves (broken_chain e) (Pool a, tr) =
     (if e = BadFunctionCallOutput
      then (Inr (), (Pool a)\<lparr>is_valid_pair := False\<rparr>, tr @ [Rpc (Token0 a)])
      else (Inl e, Pool a, tr @ [Rpc (Token0 a)]))"
  by (simp add: update_tokens_and_reserves_def resolve_tokens_def act_defs broken_chain_def Pool_def)

lemma update_disc_broken_chain:
  "update (broken_chain e) (Pool a, tr) =
     (if caught_disc e
      then (Inr (), (Pool a)\<lparr>is_valid_pair := False\<rparr>, tr @ [Rpc (Token0 a), Warning_invalid_pair a])
      else (Inl e, Pool a, tr @ [Rpc (Token0 a)]))"
  by (simp add: update_def resolve_tokens_disc_def act_defs broken_chain_def Pool_def)

text \<open>
  Claim C3 says that an exception raised during a tick is caught and logged and that
  the loop goes on to the next tick. The discovery bot does so: below, its first tick
  meets a provider error in the graph build, its second an error in the loading of the
  pool list, and it logs both, sleeps after each and runs its third tick.
  \<^verbatim>\<open>monitor_arbitrage\<close> has no \<^verbatim>\<open>try\<close> around its tick: the same provider error on
  the first call of the first tick leaves the loop and the function, whatever the chain
  would answer on later ticks.
\<close>

theorem monitor_arbitrage_uncaught:
  "monitor_arbitrage order [''P''] (broken_chain ProviderError # cs) = Some (Inl ProviderError)
   \<and> monitor verbose order [(broken_chain ProviderError, Inr [''P'']), (c, Inl ValueError), (c, Inr [])]
       = Some ({}, [Rpc (Token0 ''P''), Log_exception ProviderError, Sleep,
                    Log_exception ValueError, Sleep, Sleep])"
  by (simp add: monitor_arbitrage_def tick_def build_rate_graph_def update_broken_chain
      monitor_def tick_disc_def try_body_disc_def build_graph_def update_disc_broken_chain
      caught_disc_def find_negative_cycle_disc_no_edges report_disc_def)

section \<open>Invalid pools\<close>

lemma update_disc_table_chain:
  "map_of tab a = Some (t0, t1, r0, r1) \<Longrightarrow>
   update (table_chain tab) (Pool a, tr) =
     (Inr (), resolved_pool a t0 t1 (real r0) (real r1), tr @ update_calls a t0 t1)"
  by (simp add: update_def resolve_tokens_disc_def update_reserves_disc_def fetch_reserves_disc_def
      fetch_token_info_disc_def optional_call_def scale_def
      act_defs table_chain_def Pool_def resolved_pool_def update_calls_def)

lemma update_invalid:
  "\<not> is_valid_pair p \<Longrightarrow> update_tokens_and_reserves c (p, tr) = (Inr (), p, tr)"
  by (simp add: update_tokens_and_reserves_def)

lemma unit_pool_edges:
  "pool_edges (resolved_pool a t0 t1 1 1) =
     [(Some t0, Some t1, - ln 0.997, resolved_pool a t0 t1 1 1),
      (Some t1, Some t0, - ln 0.997, resolved_pool a t0 t1 1 1)]"
  by (simp add: pool_edges_def price_token0_to_token1_def price_token1_to_token0_def resolved_pool_def)

text \<open>Two tokens joined by two edges of weight at least 0: nothing relaxes.\<close>

lemma two_nodes_no_gain:
  assumes "a \<noteq> b" "0 \<le> w1" "0 \<le> w2"
  shows "find_negative_cycle [a, b] [(a, b, w1, p), (b, a, w2, q)] = Some (Inr ([], []))"
    and "find_negative_cycle_disc [a, b] [(a, b, w1, p), (b, a, w2, q)] = Some (Inr ([], []))"
  using assms
  by (simp_all add: find_negative_cycle_def bellman_ford_def find_negative_cycle_disc_def
      bellman_ford_disc_def token_to_idx_def upt_rec)

text \<open>
  Claim C2 says that a pool, once marked invalid, adds nothing to the graph and is asked
  nothing on any later tick of the run, even if the chain would answer by then.
  \<^verbatim>\<open>monitor_arbitrage\<close> keeps its pool objects for the whole run and does so: in the
  last equation below the pool, invalid after the first tick, is left alone on the second.
  The discovery bot makes new pool objects from the pairs file at every tick, so the
  flag does not outlive the tick: in the first equation the pool is marked invalid on
  the first tick, and on the second tick, the chain now answering, the run makes all
  seven calls for it; the second equation is the graph of that second tick, with the two
  tokens of the pool as nodes and its two edges.
\<close>

theorem rebuilt_pool_retried:
  "monitor verbose (\<lambda>ns. ns)
     [(broken_chain BadFunctionCallOutput, Inr [''P'']),
      (table_chain [(''P'', ''A'', ''B'', 1, 1)], Inr [''P''])]
     = Some ({}, [Rpc (Token0 ''P''), Warning_invalid_pair ''P'', Sleep]
                   @ update_calls ''P'' ''A'' ''B'' @ [Sleep])
   \<and> build_graph (table_chain [(''P'', ''A'', ''B'', 1, 1)]) (map Pool [''P''])
        [Rpc (Token0 ''P''), Warning_invalid_pair ''P'', Sleep]
     = (Inr ([resolved_pool ''P'' ''A'' ''B'' 1 1], [Some ''A'', Some ''B''],
             [(Some ''A'', Some ''B'', - ln 0.997, resolved_pool ''P'' ''A'' ''B'' 1 1),
              (Some ''B'', Some ''A'', - ln 0.997, resolved_pool ''P'' ''A'' ''B'' 1 1)]),
        [Rpc (Token0 ''P''), Warning_invalid_pair ''P'', Sleep] @ update_calls ''P'' ''A'' ''B'')
   \<and> monitor_arbitrage (\<lambda>ns. ns) [''P'']
        [broken_chain BadFunctionCallOutput, table_chain [(''P'', ''A'', ''B'', 1, 1)]]
     = Some (Inr \<lparr>the_pools = [(Pool ''P'')\<lparr>is_valid_pair := False\<rparr>], seen_cycles = {},
                  printed = [Rpc (Token0 ''P''), Sleep, Sleep]\<rparr>)"
proof -
  have g: "build_graph (table_chain [(''P'', ''A'', ''B'', 1, 1)]) [Pool ''P''] tr
     = (Inr ([resolved_pool ''P'' ''A'' ''B'' 1 1], [Some ''A'', Some ''B''],
             [(Some ''A'', Some ''B'', - ln 0.997, resolved_pool ''P'' ''A'' ''B'' 1 1),
              (Some ''B'', Some ''A'', - ln 0.997, resolved_pool ''P'' ''A'' ''B'' 1 1)]),
        tr @ update_calls ''P'' ''A'' ''B'')" for tr
    using update_disc_table_chain[of "[(''P'', ''A'', ''B'', 1, 1)]" "''P''" "''A''" "''B''" 1 1 tr]
    by (simp add: build_graph_def unit_pool_edges)
       (simp add: resolved_pool_def pool_nodes_def add_node_def)
  have w: "(0::real) \<le> - ln 0.997" by simp
  have ne: "Some ''A'' \<noteq> Some ''B''" by simp
  have det: "find_negative_cycle_disc [Some ''A'', Some ''B'']
      [(Some ''A'', Some ''B'', - ln (997 / 1000), p), (Some ''B'', Some ''A'', - ln (997 / 1000), q)]
      = Some (Inr ([], []))" for p q :: pool
    using two_nodes_no_gain(2)[OF ne w w, of p q] by simp
  have t1: "tick_disc verbose (\<lambda>ns. ns) (broken_chain BadFunctionCallOutput, Inr [''P'']) ({}, [])
      = Some ({}, [Rpc (Token0 ''P''), Warning_invalid_pair ''P'', Sleep])"
    by (simp add: tick_disc_def try_body_disc_def build_graph_def update_disc_broken_chain
        caught_disc_def find_negative_cycle_disc_no_edges report_disc_def)
  have t2: "tick_disc verbose (\<lambda>ns. ns) (table_chain [(''P'', ''A'', ''B'', 1, 1)], Inr [''P''])
        ({}, [Rpc (Token0 ''P''), Warning_invalid_pair ''P'', Sleep])
      = Some ({}, [Rpc (Token0 ''P''), Warning_invalid_pair ''P'', Sleep]
                   @ update_calls ''P'' ''A'' ''B'' @ [Sleep])"
    by (simp add: tick_disc_def try_body_disc_def g det report_disc_def del: One_nat_def)
  have v2: "monitor verbose (\<lambda>ns. ns)
     [(broken_chain BadFunctionCallOutput, Inr [''P'']),
      (table_chain [(''P'', ''A'', ''B'', 1, 1)], Inr [''P''])]
     = Some ({}, [Rpc (Token0 ''P''), Warning_invalid_pair ''P'', Sleep]
                   @ update_calls ''P'' ''A'' ''B'' @ [Sleep])"
    unfolding monitor_def monitor_loop_disc.simps t1 option.case t2 ..
  have v1: "monitor_arbitrage (\<lambda>ns. ns) [''P'']
        [broken_chain BadFunctionCallOutput, table_chain [(''P'', ''A'', ''B'', 1, 1)]]
     = Some (Inr \<lparr>the_pools = [(Pool ''P'')\<lparr>is_valid_pair := False\<rparr>], seen_cycles = {},
                  printed = [Rpc (Token0 ''P''), Sleep, Sleep]\<rparr>)"
    by (simp add: monitor_arbitrage_def tick_def build_rate_graph_def update_broken_chain
        update_invalid find_negative_cycle_no_edges report_def)
  from g[of "[Rpc (Token0 ''P''), Warning_invalid_pair ''P'', Sleep]"] v2 v1 show ?thesis by simp
qed

section \<open>The reported gain\<close>

lemma two_pool_cycle:
  assumes "a \<noteq> b" "0 < x" "x < y"
  shows "find_negative_cycle [a, b] [(a, b, - x, p1), (b, a, y, p2), (a, b, y, p3), (b, a, - x, p4)]
           = Some (Inr ([b, a, b], [p4, p1]))"
    and "find_negative_cycle_disc [a, b] [(a, b, - x, p1), (b, a, y, p2), (a, b, y, p3), (b, a, - x, p4)]
           = Some (Inr ([b, a, b], [p4, p1]))"
  using assms
  by (simp_all add: find_negative_cycle_def bellman_ford_def find_negative_cycle_disc_def
      bellman_ford_disc_def token_to_idx_def idx_to_token_def upt_rec
      extract_cycle_def extract_cycle_disc_def finish_cycle_def collect_cycle.simps numeral_2_eq_2)

lemma skewed_pool_edges:
  "pool_edges (resolved_pool ''P1'' ''A'' ''B'' 1 2) =
     [(Some ''A'', Some ''B'', - ln 1.994, resolved_pool ''P1'' ''A'' ''B'' 1 2),
      (Some ''B'', Some ''A'', - ln 0.4985, resolved_pool ''P1'' ''A'' ''B'' 1 2)]"
  "pool_edges (resolved_pool ''P2'' ''A'' ''B'' 2 1) =
     [(Some ''A'', Some ''B'', - ln 0.4985, resolved_pool ''P2'' ''A'' ''B'' 2 1),
      (Some ''B'', Some ''A'', - ln 1.994, resolved_pool ''P2'' ''A'' ''B'' 2 1)]"
  by (simp_all add: pool_edges_def price_token0_to_token1_def price_token1_to_token0_def
      resolved_pool_def)

lemma ln_skew: "0 < ln (1.994 :: real)" "ln (1.994 :: real) < - ln 0.4985"
proof -
  show "0 < ln (1.994 :: real)" by simp
  have "ln (1.994 :: real) + ln 0.4985 = ln (1.994 * 0.4985)"
    using ln_mult_pos[of "1.994 :: real" "0.4985"] by simp
  also have "\<dots> < 0" by simp
  finally show "ln (1.994 :: real) < - ln 0.4985" by simp
qed

lemma two_pools_rate_graph:
  "build_rate_graph two_pools [Pool ''P1'', Pool ''P2''] tr =
     (Inr ([resolved_pool ''P1'' ''A'' ''B'' 1 2, resolved_pool ''P2'' ''A'' ''B'' 2 1],
           [Some ''A'', Some ''B''],
           pool_edges (resolved_pool ''P1'' ''A'' ''B'' 1 2) @ pool_edges (resolved_pool ''P2'' ''A'' ''B'' 2 1)),
      tr @ update_calls ''P1'' ''A'' ''B'' @ update_calls ''P2'' ''A'' ''B'')"
proof -
  have u1: "update_tokens_and_reserves two_pools (Pool ''P1'', t) =
      (Inr (), resolved_pool ''P1'' ''A'' ''B'' 1 2, t @ update_calls ''P1'' ''A'' ''B'')" for t
    unfolding two_pools_def
    using update_table_chain[of "[(''P1'', ''A'', ''B'', 1, 2), (''P2'', ''A'', ''B'', 2, 1)]"
        "''P1''" "''A''" "''B''" 1 2 t] by simp
  have u2: "update_tokens_and_reserves two_pools (Pool ''P2'', t) =
      (Inr (), resolved_pool ''P2'' ''A'' ''B'' 2 1, t @ update_calls ''P2'' ''A'' ''B'')" for t
    unfolding two_pools_def
    using update_table_chain[of "[(''P1'', ''A'', ''B'', 1, 2), (''P2'', ''A'', ''B'', 2, 1)]"
        "''P2''" "''A''" "''B''" 2 1 t] by simp
  have v: "is_valid_pair (resolved_pool a t0 t1 r0 r1)" for a t0 t1 r0 r1
    by (simp add: resolved_pool_def)
  have n: "pool_nodes (resolved_pool ''P2'' ''A'' ''B'' 2 1) (pool_nodes (resolved_pool ''P1'' ''A'' ''B'' 1 2) [])
      = [Some ''A'', Some ''B'']"
    by (simp add: pool_nodes_def add_node_def resolved_pool_def)
  show ?thesis
    by (simp add: build_rate_graph_def u1 u2 v n)
qed

lemma two_pools_graph_disc:
  "build_graph two_pools [Pool ''P1'', Pool ''P2''] tr =
     (Inr ([resolved_pool ''P1'' ''A'' ''B'' 1 2, resolved_pool ''P2'' ''A'' ''B'' 2 1],
           [Some ''A'', Some ''B''],
           pool_edges (resolved_pool ''P1'' ''A'' ''B'' 1 2) @ pool_edges (resolved_pool ''P2'' ''A'' ''B'' 2 1)),
      tr @ update_calls ''P1'' ''A'' ''B'' @ update_calls ''P2'' ''A'' ''B'')"
proof -
  have u1: "update two_pools (Pool ''P1'', t) =
      (Inr (), resolved_pool ''P1'' ''A'' ''B'' 1 2, t @ update_calls ''P1'' ''A'' ''B'')" for t
    unfolding two_pools_def
    using update_disc_table_chain[of "[(''P1'', ''A'', ''B'', 1, 2), (''P2'', ''A'', ''B'', 2, 1)]"
        "''P1''" "''A''" "''B''" 1 2 t] by simp
  have u2: "update two_pools (Pool ''P2'', t) =
      (Inr (), resolved_pool ''P2'' ''A'' ''B'' 2 1, t @ update_calls ''P2'' ''A'' ''B'')" for t
    unfolding two_pools_def
    using update_disc_table_chain[of "[(''P1'', ''A'', ''B'', 1, 2), (''P2'', ''A'', ''B'', 2, 1)]"
        "''P2''" "''A''" "''B''" 2 1 t] by simp
  have v: "is_valid_pair (resolved_pool a t0 t1 r0 r1)" for a t0 t1 r0 r1
    by (simp add: resolved_pool_def)
  have n: "pool_nodes (resolved_pool ''P2'' ''A'' ''B'' 2 1) (pool_nodes (resolved_pool ''P1'' ''A'' ''B'' 1 2) [])
      = [Some ''A'', Some ''B'']"
    by (simp add: pool_nodes_def add_node_def resolved_pool_def)
  show ?thesis
    by (simp add: build_graph_def u1 u2 v n)
qed

lemma two_pools_cycle:
  "find_negative_cycle [Some ''A'', Some ''B'']
     (pool_edges (resolved_pool ''P1'' ''A'' ''B'' 1 2) @ pool_edges (resolved_pool ''P2'' ''A'' ''B'' 2 1))
   = Some (Inr ([Some ''B'', Some ''A'', Some ''B''],
                [resolved_pool ''P2'' ''A'' ''B'' 2 1, resolved_pool ''P1'' ''A'' ''B'' 1 2]))"
  "find_negative_cycle_disc [Some ''A'', Some ''B'']
     (pool_edges (resolved_pool ''P1'' ''A'' ''B'' 1 2) @ pool_edges (resolved_pool ''P2'' ''A'' ''B'' 2 1))
   = Some (Inr ([Some ''B'', Some ''A'', Some ''B''],
                [resolved_pool ''P2'' ''A'' ''B'' 2 1, resolved_pool ''P1'' ''A'' ''B'' 1 2]))"
proof -
  have ne: "Some ''A'' \<noteq> Some ''B''" by simp
  show "find_negative_cycle [Some ''A'', Some ''B'']
     (pool_edges (resolved_pool ''P1'' ''A'' ''B'' 1 2) @ pool_edges (resolved_pool ''P2'' ''A'' ''B'' 2 1))
   = Some (Inr ([Some ''B'', Some ''A'', Some ''B''],
                [resolved_pool ''P2'' ''A'' ''B'' 2 1, resolved_pool ''P1'' ''A'' ''B'' 1 2]))"
    unfolding skewed_pool_edges append.simps by (rule two_pool_cycle(1)[OF ne ln_skew])
  show "find_negative_cycle_disc [Some ''A'', Some ''B'']
     (pool_edges (resolved_pool ''P1'' ''A'' ''B'' 1 2) @ pool_edges (resolved_pool ''P2'' ''A'' ''B'' 2 1))
   = Some (Inr ([Some ''B'', Some ''A'', Some ''B''],
                [resolved_pool ''P2'' ''A'' ''B'' 2 1, resolved_pool ''P1'' ''A'' ''B'' 1 2]))"
    unfolding skewed_pool_edges append.simps by (rule two_pool_cycle(2)[OF ne ln_skew])
qed

lemma two_pools_first_edge:
  "first_edge_weight
     (pool_edges (resolved_pool ''P1'' ''A'' ''B'' 1 2) @ pool_edges (resolved_pool ''P2'' ''A'' ''B'' 2 1))
     [Some ''B'', Some ''A'', Some ''B''] = Inr (- ln 0.4985)"
  unfolding skewed_pool_edges by simp

lemma two_pools_announce:
  "announce key [Some ''B'', Some ''A'', Some ''B'']
     [resolved_pool ''P2'' ''A'' ''B'' 2 1, resolved_pool ''P1'' ''A'' ''B'' 1 2]
     (pool_edges (resolved_pool ''P1'' ''A'' ''B'' 1 2) @ pool_edges (resolved_pool ''P2'' ''A'' ''B'' 2 1))
     (seen, tr)
   = (Inr (), insert key seen,
      tr @ [Arbitrage key 0.4985 [(Some ''A'', Some ''B'', ''P2''), (Some ''A'', Some ''B'', ''P1'')]])"
  unfolding announce_def two_pools_first_edge
  by (simp add: pool_line_def resolved_pool_def)

text \<open>
  Claim C1 says that the gain written with a cycle is \<open>exp (- S)\<close> for the sum \<open>S\<close> of the
  weights of all the edges of the cycle. Both monitors take instead the weight of the
  first edge of the edge list that joins the first two tokens of the cycle. On the two
  pools above the graph has four edges, the detector of either program returns the
  cycle B, A, B backed by the second pool and then the first, whose two edges have weight
  \<open>- ln 1.994\<close> each, so that \<open>exp (- S) = 3.976036\<close>. The first edge of the list from B to
  A is the one of the first pool, of weight \<open>- ln 0.4985\<close>, and both monitors write the
  gain 0.4985.
\<close>

theorem first_hop_gain:
  "monitor_arbitrage (\<lambda>ns. ns) [''P1'', ''P2''] [two_pools] =
     Some (Inr \<lparr>the_pools = [resolved_pool ''P1'' ''A'' ''B'' 1 2, resolved_pool ''P2'' ''A'' ''B'' 2 1],
                seen_cycles = {''B'' @ spaced_arrow @ ''A'' @ spaced_arrow @ ''B''},
                printed = update_calls ''P1'' ''A'' ''B'' @ update_calls ''P2'' ''A'' ''B'' @
                  [Arbitrage (''B'' @ spaced_arrow @ ''A'' @ spaced_arrow @ ''B'') 0.4985
                     [(Some ''A'', Some ''B'', ''P2''), (Some ''A'', Some ''B'', ''P1'')],
                   Sleep]\<rparr>)
   \<and> monitor verbose (\<lambda>ns. ns) [(two_pools, Inr [''P1'', ''P2''])] =
     Some ({''B'' @ arrow @ ''A'' @ arrow @ ''B''},
           update_calls ''P1'' ''A'' ''B'' @ update_calls ''P2'' ''A'' ''B'' @
             [Arbitrage (''B'' @ arrow @ ''A'' @ arrow @ ''B'') 0.4985
                [(Some ''A'', Some ''B'', ''P2''), (Some ''A'', Some ''B'', ''P1'')],
              Sleep])
   \<and> build_rate_graph two_pools [Pool ''P1'', Pool ''P2''] [] =
     (Inr ([resolved_pool ''P1'' ''A'' ''B'' 1 2, resolved_pool ''P2'' ''A'' ''B'' 2 1],
           [Some ''A'', Some ''B''],
           [(Some ''A'', Some ''B'', - ln 1.994, resolved_pool ''P1'' ''A'' ''B'' 1 2),
            (Some ''B'', Some ''A'', - ln 0.4985, resolved_pool ''P1'' ''A'' ''B'' 1 2),
            (Some ''A'', Some ''B'', - ln 0.4985, resolved_pool ''P2'' ''A'' ''B'' 2 1),
            (Some ''B'', Some ''A'', - ln 1.994, resolved_pool ''P2'' ''A'' ''B'' 2 1)]),
      update_calls ''P1'' ''A'' ''B'' @ update_calls ''P2'' ''A'' ''B'')
   \<and> find_negative_cycle [Some ''A'', Some ''B'']
        [(Some ''A'', Some ''B'', - ln 1.994, resolved_pool ''P1'' ''A'' ''B'' 1 2),
         (Some ''B'', Some ''A'', - ln 0.4985, resolved_pool ''P1'' ''A'' ''B'' 1 2),
         (Some ''A'', Some ''B'', - ln 0.4985, resolved_pool ''P2'' ''A'' ''B'' 2 1),
         (Some ''B'', Some ''A'', - ln 1.994, resolved_pool ''P2'' ''A'' ''B'' 2 1)]
     = Some (Inr ([Some ''B'', Some ''A'', Some ''B''],
                  [resolved_pool ''P2'' ''A'' ''B'' 2 1, resolved_pool ''P1'' ''A'' ''B'' 1 2]))
   \<and> exp (- (- ln 1.994 + - ln 1.994)) = (3.976036 :: real)"
proof -
  let ?p1 = "resolved_pool ''P1'' ''A'' ''B'' 1 2"
  let ?p2 = "resolved_pool ''P2'' ''A'' ''B'' 2 1"
  have k1: "str_join spaced_arrow [Some ''B'', Some ''A'', Some ''B'']
      = Inr (''B'' @ spaced_arrow @ ''A'' @ spaced_arrow @ ''B'')"
    by (simp add: str_join_def)
  have k2: "str_join arrow [Some ''B'', Some ''A'', Some ''B'']
      = Inr (''B'' @ arrow @ ''A'' @ arrow @ ''B'')"
    by (simp add: str_join_def)
  have m1: "monitor_arbitrage (\<lambda>ns. ns) [''P1'', ''P2''] [two_pools] =
     Some (Inr \<lparr>the_pools = [?p1, ?p2],
                seen_cycles = {''B'' @ spaced_arrow @ ''A'' @ spaced_arrow @ ''B''},
                printed = update_calls ''P1'' ''A'' ''B'' @ update_calls ''P2'' ''A'' ''B'' @
                  [Arbitrage (''B'' @ spaced_arrow @ ''A'' @ spaced_arrow @ ''B'') 0.4985
                     [(Some ''A'', Some ''B'', ''P2''), (Some ''A'', Some ''B'', ''P1'')],
                   Sleep]\<rparr>)"
    by (simp add: monitor_arbitrage_def tick_def two_pools_rate_graph two_pools_cycle report_def
        k1 two_pools_announce)
  have m2: "monitor verbose (\<lambda>ns. ns) [(two_pools, Inr [''P1'', ''P2''])] =
     Some ({''B'' @ arrow @ ''A'' @ arrow @ ''B''},
           update_calls ''P1'' ''A'' ''B'' @ update_calls ''P2'' ''A'' ''B'' @
             [Arbitrage (''B'' @ arrow @ ''A'' @ arrow @ ''B'') 0.4985
                [(Some ''A'', Some ''B'', ''P2''), (Some ''A'', Some ''B'', ''P1'')],
              Sleep])"
    by (simp add: monitor_def tick_disc_def try_body_disc_def two_pools_graph_disc two_pools_cycle
        report_disc_def k2 two_pools_announce)
  have g: "build_rate_graph two_pools [Pool ''P1'', Pool ''P2''] [] =
     (Inr ([?p1, ?p2], [Some ''A'', Some ''B''],
           [(Some ''A'', Some ''B'', - ln 1.994, ?p1), (Some ''B'', Some ''A'', - ln 0.4985, ?p1),
            (Some ''A'', Some ''B'', - ln 0.4985, ?p2), (Some ''B'', Some ''A'', - ln 1.994, ?p2)]),
      update_calls ''P1'' ''A'' ''B'' @ update_calls ''P2'' ''A'' ''B'')"
    using two_pools_rate_graph[of "[]"] unfolding skewed_pool_edges by simp
  have c: "find_negative_cycle [Some ''A'', Some ''B'']
        [(Some ''A'', Some ''B'', - ln 1.994, ?p1), (Some ''B'', Some ''A'', - ln 0.4985, ?p1),
         (Some ''A'', Some ''B'', - ln 0.4985, ?p2), (Some ''B'', Some ''A'', - ln 1.994, ?p2)]
     = Some (Inr ([Some ''B'', Some ''A'', Some ''B''], [?p2, ?p1]))"
    using two_pools_cycle(1) unfolding skewed_pool_edges append.simps .
  have l: "ln 1.994 + ln 1.994 = ln (3.976036 :: real)"
    using ln_mult_pos[of "1.994 :: real" "1.994"] by simp
  have e: "exp (- (- ln 1.994 + - ln 1.994)) = (3.976036 :: real)"
    using l by simp
  from m1 m2 g c e show ?thesis by (intro conjI)
qed

section \<open>The relaxation loop and its predecessor links\<close>

lemma token_to_idx_range:
  "token_to_idx ns t = Some i \<Longrightarrow> i < length ns \<and> ns ! i = t"
  unfolding token_to_idx_def
  by (auto dest!: map_of_SomeD simp: in_set_zip)

lemma token_to_idx_nth:
  "distinct ns \<Longrightarrow> i < length ns \<Longrightarrow> token_to_idx ns (ns ! i) = Some i"
  unfolding token_to_idx_def
  using map_of_zip_nth[of ns "[0..<length ns]" i] by simp

lemma token_to_idx_mem:
  "distinct ns \<Longrightarrow> t \<in> set ns \<Longrightarrow> \<exists>i < length ns. token_to_idx ns t = Some i \<and> ns ! i = t"
  by (metis in_set_conv_nth token_to_idx_nth)

lemma idx_to_token_nth:
  "idx_to_token ns i = (if i < length ns then Some (ns ! i) else None)"
proof (cases "i < length ns")
  case True
  then show ?thesis
    unfolding idx_to_token_def
    using map_of_zip_nth[of "[0..<length ns]" ns i] by simp
next
  case False
  then have "i \<notin> set [0..<length ns]" by simp
  then have "map_of (zip [0..<length ns] ns) i = None"
    by (metis (no_types, lifting) map_of_zip_is_None length_upt minus_nat.diff_0)
  with False show ?thesis by (simp add: idx_to_token_def)
qed

lemma piter_add:
  "piter parent (a + b) x = (case piter parent a x of None \<Rightarrow> None | Some y \<Rightarrow> piter parent b y)"
  by (induction a arbitrary: x) (auto split: option.splits)

lemma piter_prefix:
  "piter parent k x = Some y \<Longrightarrow> j \<le> k \<Longrightarrow> \<exists>z. piter parent j x = Some z"
  using piter_add[of parent j "k - j" x] by (auto split: option.splits)

lemma bf_inv_init: "bf_inv idx es (replicate n 0) (replicate n None)"
  unfolding bf_inv_def link_ok_def
  by (auto intro!: exI[of _ "\<lambda>_. 0"])

lemma relax_edge_inv:
  assumes b: "idx_bounded idx (length d)"
    and i: "bf_inv idx es d parent"
    and e: "e \<in> set es"
    and r: "relax_edge idx (d, parent, upd) e = Inr (d', parent', upd')"
  shows "bf_inv idx es d' parent' \<and> length d' = length d \<and> (\<forall>i. d' ! i \<le> d ! i)"
proof -
  obtain u v w p where e_def: "e = (u, v, w, p)" by (cases e) auto
  from r e_def obtain ui vi where ui: "idx u = Some ui" and vi: "idx v = Some vi"
    by (auto split: option.splits)
  from b ui vi have lt: "ui < length d" "vi < length d" by (auto simp: idx_bounded_def)
  show ?thesis
  proof (cases "d ! ui + w < d ! vi")
    case False
    with r e_def ui vi i show ?thesis by simp
  next
    case True
    with r e_def ui vi have d': "d' = d[vi := d ! ui + w]"
      and p': "parent' = parent[vi := Some (ui, p)]" by simp_all
    from i obtain stamp M where len: "length parent = length d"
      and bound: "\<forall>x. stamp x \<le> (M::nat)"
      and links: "\<forall>x < length d. link_ok idx es d stamp x (parent ! x)"
      unfolding bf_inv_def by blast
    let ?stamp = "stamp(vi := Suc M)"
    have bound': "\<forall>x. ?stamp x \<le> Suc M" using bound by (simp add: le_SucI)
    have mono: "\<forall>i. d' ! i \<le> d ! i"
    proof
      fix i show "d' ! i \<le> d ! i"
        using True lt d' by (cases "i = vi") auto
    qed
    have "link_ok idx es d' ?stamp x (parent' ! x)" if x: "x < length d" for x
    proof (cases "x = vi")
      case xv: True
      have "parent' ! x = Some (ui, p)" using xv p' len lt by simp
      moreover have "d' ! ui + w \<le> d' ! vi \<and> (?stamp vi \<le> ?stamp ui \<longrightarrow> d' ! ui + w < d' ! vi)"
      proof (cases "ui = vi")
        case same: True
        with True have "w < 0" by simp
        with same d' lt show ?thesis by simp
      next
        case diff: False
        then have "?stamp ui \<le> M" using bound by simp
        with diff d' lt show ?thesis by simp
      qed
      ultimately have "parent' ! x = Some (ui, p)"
        and "\<exists>ut vt wa. (ut, vt, wa, p) \<in> set es \<and> idx ut = Some ui \<and> idx vt = Some x \<and>
               d' ! ui + wa \<le> d' ! x \<and> (?stamp x \<le> ?stamp ui \<longrightarrow> d' ! ui + wa < d' ! x)"
        using e e_def ui vi xv by blast+
      then show ?thesis
        unfolding link_ok_def using lt d' by simp
    next
      case xv: False
      then have px: "parent' ! x = parent ! x" using p' by simp
      show ?thesis
      proof (cases "parent ! x")
        case None
        with px show ?thesis by (simp add: link_ok_def)
      next
        case (Some l)
        obtain y q where l: "l = (y, q)" by (cases l) auto
        from links x Some l have "link_ok idx es d stamp x (Some (y, q))" by auto
        then have "y < length d \<and> (\<exists>ut vt w'. (ut, vt, w', q) \<in> set es \<and> idx ut = Some y \<and>
            idx vt = Some x \<and> d ! y + w' \<le> d ! x \<and> (stamp x \<le> stamp y \<longrightarrow> d ! y + w' < d ! x))"
          unfolding link_ok_def by simp
        then obtain ut vt w' where
          old: "y < length d" "(ut, vt, w', q) \<in> set es" "idx ut = Some y" "idx vt = Some x"
            "d ! y + w' \<le> d ! x" "stamp x \<le> stamp y \<longrightarrow> d ! y + w' < d ! x"
          by blast
        have dx: "d' ! x = d ! x" using xv d' by simp
        have "d' ! y + w' \<le> d' ! x \<and> (?stamp x \<le> ?stamp y \<longrightarrow> d' ! y + w' < d' ! x)"
        proof (cases "y = vi")
          case True
          then have "d' ! y < d ! y" using d' lt \<open>d ! ui + w < d ! vi\<close> by simp
          with old(5) dx show ?thesis by simp
        next
          case False
          then have "d' ! y = d ! y" using d' by simp
          with old(5,6) dx xv False show ?thesis by simp
        qed
        with old(2,3,4) have "\<exists>ut vt wa. (ut, vt, wa, q) \<in> set es \<and> idx ut = Some y \<and>
            idx vt = Some x \<and> d' ! y + wa \<le> d' ! x \<and> (?stamp x \<le> ?stamp y \<longrightarrow> d' ! y + wa < d' ! x)"
          by blast
        moreover have "parent' ! x = Some (y, q)" using px Some l by simp
        moreover have "y < length d'" using old(1) d' by simp
        ultimately show ?thesis
          unfolding link_ok_def by simp
      qed
    qed
    then have links': "\<forall>v < length d'. link_ok idx es d' ?stamp v (parent' ! v)"
      using d' by simp
    have "bf_inv idx es d' parent'"
      unfolding bf_inv_def
    proof (intro conjI exI[of _ "?stamp"] exI[of _ "Suc M"])
      show "length parent' = length d'" using len d' p' by simp
      show "\<forall>x. ?stamp x \<le> Suc M" using bound' .
      show "\<forall>v<length d'. link_ok idx es d' ?stamp v (parent' ! v)" using links' .
    qed
    with mono d' show ?thesis by simp
  qed
qed

lemma relax_pass_inv:
  assumes "idx_bounded idx (length d)" "bf_inv idx es d parent" "set es' \<subseteq> set es"
    "relax_pass idx (d, parent, upd) es' = Inr (d', parent', upd')"
  shows "bf_inv idx es d' parent' \<and> length d' = length d \<and> (\<forall>i. d' ! i \<le> d ! i)"
  using assms
proof (induction es' arbitrary: d parent upd)
  case Nil
  then show ?case by simp
next
  case (Cons e es')
  from Cons.prems(4) obtain d1 p1 u1 where
    s1: "relax_edge idx (d, parent, upd) e = Inr (d1, p1, u1)"
    and s2: "relax_pass idx (d1, p1, u1) es' = Inr (d', parent', upd')"
    by (auto split: sum.splits)
  from Cons.prems have "e \<in> set es" by simp
  from relax_edge_inv[OF Cons.prems(1,2) this s1]
  have i1: "bf_inv idx es d1 p1" and l1: "length d1 = length d" and m1: "\<forall>i. d1 ! i \<le> d ! i"
    by simp_all
  from Cons.prems(1) l1 have b1: "idx_bounded idx (length d1)" by simp
  from Cons.prems(3) have sub: "set es' \<subseteq> set es" by simp
  from Cons.IH[OF b1 i1 sub s2] l1 m1 show ?case
    by (metis order_trans)
qed

lemma idx_bounded_token_to_idx: "idx_bounded (token_to_idx ns) (length ns)"
  unfolding idx_bounded_def using token_to_idx_range by fastforce

lemma relax_passes_inv:
  assumes "idx_bounded idx (length d)" "bf_inv idx es d parent"
    "relax_passes k idx es (d, parent, c) = Inr (d', parent', c')"
  shows "bf_inv idx es d' parent' \<and> length d' = length d"
  using assms
proof (induction k arbitrary: d parent c)
  case 0
  then show ?case by simp
next
  case (Suc k)
  from Suc.prems(3) obtain d1 p1 u1 where
    s1: "relax_pass idx (d, parent, False) es = Inr (d1, p1, u1)"
    by (auto split: sum.splits)
  from relax_pass_inv[OF Suc.prems(1,2) subset_refl s1]
  have i1: "bf_inv idx es d1 p1" and l1: "length d1 = length d" by simp_all
  show ?case
  proof (cases u1)
    case False
    with Suc.prems(3) s1 have "d' = d1" "parent' = p1" by simp_all
    with i1 l1 show ?thesis by simp
  next
    case True
    with Suc.prems(3) s1 have r: "relax_passes k idx es (d1, p1, Suc c) = Inr (d', parent', c')"
      by simp
    from Suc.prems(1) l1 have b1: "idx_bounded idx (length d1)" by simp
    from Suc.IH[OF b1 i1 r] l1 show ?thesis by simp
  qed
qed

lemma relax_edge_disc_eq:
  "relax_edge_disc idx (d, parent) e =
     (case relax_edge idx (d, parent, upd) e of Inl x \<Rightarrow> Inl x | Inr (d', p', u') \<Rightarrow> Inr (d', p'))"
  by (cases e rule: prod_cases4) (auto split: option.splits)

lemma relax_pass_disc_eq:
  "relax_pass_disc idx (d, parent) es =
     (case relax_pass idx (d, parent, upd) es of Inl x \<Rightarrow> Inl x | Inr (d', p', u') \<Rightarrow> Inr (d', p'))"
proof (induction es arbitrary: d parent upd)
  case Nil
  show ?case by simp
next
  case (Cons e es)
  show ?case
  proof (cases "relax_edge idx (d, parent, upd) e")
    case (Inl x)
    then show ?thesis using relax_edge_disc_eq[of idx d parent e upd] by simp
  next
    case (Inr st)
    obtain d1 p1 u1 where st: "st = (d1, p1, u1)" by (cases st)
    with Inr relax_edge_disc_eq[of idx d parent e upd] Cons.IH[of d1 p1 u1] show ?thesis by simp
  qed
qed

lemma relax_pass_disc_inv:
  assumes "idx_bounded idx (length d)" "bf_inv idx es d parent" "set es' \<subseteq> set es"
    "relax_pass_disc idx (d, parent) es' = Inr (d', parent')"
  shows "bf_inv idx es d' parent' \<and> length d' = length d \<and> (\<forall>i. d' ! i \<le> d ! i)"
proof -
  from assms(4) relax_pass_disc_eq[of idx d parent es' False]
  obtain u' where "relax_pass idx (d, parent, False) es' = Inr (d', parent', u')"
    by (auto split: sum.splits)
  from relax_pass_inv[OF assms(1,2,3) this] show ?thesis .
qed

lemma relax_passes_disc_inv:
  assumes "idx_bounded idx (length d)" "bf_inv idx es d parent"
    "relax_passes_disc k idx es (d, parent, c) = Inr (d', parent', c')"
  shows "bf_inv idx es d' parent' \<and> length d' = length d \<and> c' = c + k"
  using assms
proof (induction k arbitrary: d parent c)
  case 0
  then show ?case by simp
next
  case (Suc k)
  from Suc.prems(3) obtain d1 p1 where
    s1: "relax_pass_disc idx (d, parent) es = Inr (d1, p1)"
    and r: "relax_passes_disc k idx es (d1, p1, Suc c) = Inr (d', parent', c')"
    by (auto split: sum.splits)
  from relax_pass_disc_inv[OF Suc.prems(1,2) subset_refl s1]
  have i1: "bf_inv idx es d1 p1" and l1: "length d1 = length d" by simp_all
  from Suc.prems(1) l1 have b1: "idx_bounded idx (length d1)" by simp
  from Suc.IH[OF b1 i1 r] l1 show ?case by simp
qed

lemma bellman_ford_inv:
  assumes "bellman_ford nodes es = Inr (d, parent, cnt)"
  shows "bf_inv (token_to_idx nodes) es d parent \<and> length d = length nodes"
proof -
  have b: "idx_bounded (token_to_idx nodes) (length (replicate (length nodes) (0::real)))"
    using idx_bounded_token_to_idx[of nodes] by simp
  from relax_passes_inv[OF b bf_inv_init assms[unfolded bellman_ford_def]]
  show ?thesis by simp
qed

lemma bellman_ford_disc_inv:
  assumes "bellman_ford_disc nodes es = Inr (d, parent, cnt)"
  shows "bf_inv (token_to_idx nodes) es d parent \<and> length d = length nodes
    \<and> cnt = length nodes - 1"
proof -
  have b: "idx_bounded (token_to_idx nodes) (length (replicate (length nodes) (0::real)))"
    using idx_bounded_token_to_idx[of nodes] by simp
  from relax_passes_disc_inv[OF b bf_inv_init assms[unfolded bellman_ford_disc_def]]
  show ?thesis by simp
qed

text \<open>A link of the predecessor array, read off the invariant.\<close>

lemma bf_inv_link:
  assumes "bf_inv idx es d parent" "v < length d" "parent ! v = Some (u, p)"
  shows "u < length d \<and> (\<exists>ut vt w. (ut, vt, w, p) \<in> set es \<and> idx ut = Some u \<and> idx vt = Some v)"
proof -
  from assms(1) obtain stamp M where
    "\<forall>x < length d. link_ok idx es d stamp x (parent ! x)"
    unfolding bf_inv_def by blast
  with assms(2,3) have "link_ok idx es d stamp v (Some (u, p))" by auto
  then show ?thesis unfolding link_ok_def by auto
qed

lemma piter_Suc:
  "piter parent (Suc k) x = (case piter parent k x of None \<Rightarrow> None
     | Some y \<Rightarrow> (case parent ! y of None \<Rightarrow> None | Some (z, pl) \<Rightarrow> Some z))"
  using piter_add[of parent k 1 x] by (auto split: option.splits)

lemma piter_bound:
  assumes "bf_inv idx es d parent" "v < length d" "piter parent k v = Some s"
  shows "s < length d"
  using assms(3)
proof (induction k arbitrary: s)
  case 0
  with assms(2) show ?case by simp
next
  case (Suc k)
  from Suc.prems obtain y pl where y: "piter parent k v = Some y" and l: "parent ! y = Some (s, pl)"
    by (auto simp: piter_Suc simp del: piter.simps split: option.splits)
  from Suc.IH[OF y] have "y < length d" .
  from bf_inv_link[OF assms(1) this l] show ?case by simp
qed

text \<open>After as many steps as there are nodes the walk is on a cycle of links.\<close>

lemma piter_cycle:
  assumes inv: "bf_inv idx es d parent" and v: "v < length d"
    and s: "piter parent (length d) v = Some s"
  shows "\<exists>k. 0 < k \<and> k \<le> length d \<and> piter parent k s = Some s"
proof -
  let ?N = "length d"
  define f where "f k = the (piter parent k v)" for k
  have def: "piter parent k v = Some (f k)" if "k \<le> ?N" for k
    using piter_prefix[OF s that] by (auto simp: f_def)
  have bnd: "f k < ?N" if "k \<le> ?N" for k
    using piter_bound[OF inv v def[OF that]] .
  have "f ` {0..?N} \<subseteq> {0..<?N}" using bnd by auto
  then have "card (f ` {0..?N}) \<le> card {0..<?N}" by (intro card_mono) auto
  then have "card (f ` {0..?N}) < card {0..?N}" by simp
  then have "\<not> inj_on f {0..?N}" using pigeonhole by blast
  then obtain a b where ab: "a \<le> ?N" "b \<le> ?N" "a \<noteq> b" "f a = f b"
    unfolding inj_on_def by auto
  then obtain i j where ij: "i < j" "j \<le> ?N" "f i = f j"
    by (cases "a < b") (auto simp: not_less le_less)
  define c where "c = j - i"
  have c: "0 < c" "c \<le> ?N" "i + c = j" using ij by (auto simp: c_def)
  have i: "i \<le> ?N" using ij by simp
  have loop: "piter parent c (f i) = Some (f i)"
    using piter_add[of parent i c v] def[OF i] def[OF ij(2)] c(3) ij(3) by simp
  have rest: "piter parent (?N - i) (f i) = Some s"
    using piter_add[of parent i "?N - i" v] def[OF i] s i by simp
  have "piter parent (c + (?N - i)) (f i) = Some s"
    using piter_add[of parent c "?N - i" "f i"] loop rest by simp
  moreover have "piter parent ((?N - i) + c) (f i) = piter parent c s"
    using piter_add[of parent "?N - i" c "f i"] rest by simp
  ultimately have "piter parent c s = Some s" by (simp add: add.commute)
  with c show ?thesis by blast
qed

section \<open>The extraction of the cycle\<close>

lemma collect_cycle_run:
  assumes cyc: "piter parent m s = Some s"
    and min: "\<And>j. 0 < j \<Longrightarrow> j < m \<Longrightarrow> piter parent j s \<noteq> Some s"
    and tok: "\<And>j x. j < m \<Longrightarrow> piter parent j s = Some x \<Longrightarrow> i2t x \<noteq> None"
    and j: "j < m" and cur: "piter parent j s = Some cur"
  shows "collect_cycle parent i2t s cur ts ps =
     Some (Inr (ts @ map (\<lambda>i. the (i2t (the (piter parent i s)))) [j..<m],
                ps @ map (\<lambda>i. snd (the (parent ! the (piter parent i s)))) [j..<m]))"
  using j cur
proof (induction "m - j" arbitrary: j cur ts ps)
  case 0
  then show ?case by simp
next
  case (Suc n)
  from Suc.prems have jm: "Suc j \<le> m" by simp
  from piter_prefix[OF cyc jm] obtain nx where nx: "piter parent (Suc j) s = Some nx" by blast
  with Suc.prems(2) obtain pl where l: "parent ! cur = Some (nx, pl)"
    by (auto simp: piter_Suc simp del: piter.simps split: option.splits)
  from tok[OF Suc.prems] obtain t where t: "i2t cur = Some t" by auto
  have up: "[j..<m] = j # [Suc j..<m]" using Suc.prems(1) by (simp add: upt_conv_Cons)
  show ?case
  proof (cases "nx = s")
    case True
    with nx min[of "Suc j"] jm have "Suc j = m" by (cases "Suc j < m") auto
    then have e: "[Suc j..<m] = []" by simp
    show ?thesis
      by (subst collect_cycle.simps) (simp add: l t True up e Suc.prems(2))
  next
    case False
    with nx cyc have "Suc j \<noteq> m" by auto
    with jm have lt: "Suc j < m" by simp
    from Suc.hyps(2) have n: "n = m - Suc j" by simp
    show ?thesis
      by (subst collect_cycle.simps) (simp add: l t False up Suc.hyps(1)[OF n lt nx] Suc.prems(2))
  qed
qed

lemma stamps_descend:
  fixes stamp :: "nat \<Rightarrow> nat"
  assumes "\<And>j. j < m \<Longrightarrow> stamp (X (Suc j)) < stamp (X j)"
  shows "j \<le> m \<Longrightarrow> stamp (X j) + j \<le> stamp (X 0)"
proof (induction j)
  case 0
  show ?case by simp
next
  case (Suc j)
  then have "stamp (X j) + j \<le> stamp (X 0)" by simp
  moreover from Suc.prems assms[of j] have "stamp (X (Suc j)) < stamp (X j)" by simp
  ultimately show ?case by simp
qed

lemma cycle_of_links:
  assumes inv: "bf_inv (token_to_idx nodes) es d parent" and len: "length d = length nodes"
    and s: "s < length nodes" and k: "0 < k" "piter parent k s = Some s"
  shows "\<exists>T P ws.
      finish_cycle (idx_to_token nodes) s (collect_cycle parent (idx_to_token nodes) s s [] [])
        = Some (Inr (T, P))
      \<and> P \<noteq> [] \<and> closed_walk es T P ws \<and> sum_list ws < 0 \<and> hd T = nodes ! s"
proof -
  define m where "m = (LEAST j. 0 < j \<and> piter parent j s = Some s)"
  have "0 < m \<and> piter parent m s = Some s"
    unfolding m_def using k by (intro LeastI[of "\<lambda>j. 0 < j \<and> piter parent j s = Some s" k]) simp
  then have m: "0 < m" "piter parent m s = Some s" by simp_all
  have min: "piter parent j s \<noteq> Some s" if "0 < j" "j < m" for j
    using not_less_Least[of j "\<lambda>j. 0 < j \<and> piter parent j s = Some s"] that
    unfolding m_def by blast
  define X where "X j = the (piter parent j s)" for j
  have X: "piter parent j s = Some (X j)" if "j \<le> m" for j
    using piter_prefix[OF m(2) that] by (auto simp: X_def)
  have X0: "X 0 = s" by (simp add: X_def)
  have Xm: "X m = s" using m(2) by (simp add: X_def)
  have sd: "s < length d" using s len by simp
  have Xb: "X j < length nodes" if "j \<le> m" for j
    using piter_bound[OF inv sd X[OF that]] len by simp
  define PL where "PL j = snd (the (parent ! X j))" for j
  have lk: "parent ! X j = Some (X (Suc j), PL j)" if "j < m" for j
  proof -
    from that have "j \<le> m" "Suc j \<le> m" by simp_all
    from X[OF this(1)] X[OF this(2)] show ?thesis
      by (auto simp: piter_Suc PL_def simp del: piter.simps split: option.splits)
  qed
  define TK where "TK j = nodes ! X j" for j
  have i2t: "idx_to_token nodes (X j) = Some (TK j)" if "j \<le> m" for j
    using Xb[OF that] by (simp add: idx_to_token_nth TK_def)
  have tok: "idx_to_token nodes x \<noteq> None" if "j < m" "piter parent j s = Some x" for j x
    using that X[of j] i2t[of j] by simp
  have run0: "collect_cycle parent (idx_to_token nodes) s s [] [] =
      Some (Inr ([] @ map (\<lambda>i. the (idx_to_token nodes (the (piter parent i s)))) [0..<m],
                 [] @ map (\<lambda>i. snd (the (parent ! the (piter parent i s)))) [0..<m]))"
    by (rule collect_cycle_run[OF m(2) min tok m(1)]) simp_all
  have mt: "map (\<lambda>i. the (idx_to_token nodes (the (piter parent i s)))) [0..<m] = map TK [0..<m]"
    by (rule map_cong) (auto simp: X_def[symmetric] i2t)
  have mp: "map (\<lambda>i. snd (the (parent ! the (piter parent i s)))) [0..<m] = map PL [0..<m]"
    by (rule map_cong) (auto simp: X_def[symmetric] PL_def)
  have run: "collect_cycle parent (idx_to_token nodes) s s [] [] =
      Some (Inr (map TK [0..<m], map PL [0..<m]))"
    using run0 unfolding mt mp by simp
  define T where "T = rev (map TK [0..<Suc m])"
  define P where "P = rev (map PL [0..<m])"
  have its: "idx_to_token nodes s = Some (TK m)" using i2t[of m] Xm by simp
  have fin: "finish_cycle (idx_to_token nodes) s
      (collect_cycle parent (idx_to_token nodes) s s [] []) = Some (Inr (T, P))"
    unfolding run finish_cycle_def by (simp add: its T_def P_def)
  from inv obtain stamp :: "nat \<Rightarrow> nat" and M where
    links: "\<forall>x < length d. link_ok (token_to_idx nodes) es d stamp x (parent ! x)"
    unfolding bf_inv_def by blast
  have ex: "\<exists>w. (TK (Suc j), TK j, w, PL j) \<in> set es \<and> d ! X (Suc j) + w \<le> d ! X j
      \<and> (stamp (X j) \<le> stamp (X (Suc j)) \<longrightarrow> d ! X (Suc j) + w < d ! X j)" if "j < m" for j
  proof -
    from that have "X j < length d" using Xb[of j] len by simp
    with links lk[OF that] have "link_ok (token_to_idx nodes) es d stamp (X j) (Some (X (Suc j), PL j))"
      by auto
    then obtain ut vt w where e: "(ut, vt, w, PL j) \<in> set es"
      and u: "token_to_idx nodes ut = Some (X (Suc j))" and v: "token_to_idx nodes vt = Some (X j)"
      and le: "d ! X (Suc j) + w \<le> d ! X j"
      and lt: "stamp (X j) \<le> stamp (X (Suc j)) \<longrightarrow> d ! X (Suc j) + w < d ! X j"
      unfolding link_ok_def by auto
    from token_to_idx_range[OF u] token_to_idx_range[OF v] have "ut = TK (Suc j)" "vt = TK j"
      by (simp_all add: TK_def)
    with e le lt show ?thesis by blast
  qed
  then have "\<forall>j. \<exists>w. j < m \<longrightarrow> ((TK (Suc j), TK j, w, PL j) \<in> set es \<and> d ! X (Suc j) + w \<le> d ! X j
      \<and> (stamp (X j) \<le> stamp (X (Suc j)) \<longrightarrow> d ! X (Suc j) + w < d ! X j))" by blast
  from choice[OF this] obtain W where
    W: "\<And>j. j < m \<Longrightarrow> (TK (Suc j), TK j, W j, PL j) \<in> set es \<and> d ! X (Suc j) + W j \<le> d ! X j
      \<and> (stamp (X j) \<le> stamp (X (Suc j)) \<longrightarrow> d ! X (Suc j) + W j < d ! X j)" by blast
  define ws where "ws = rev (map W [0..<m])"
  have lens: "length T = Suc m" "length P = m" "length ws = m"
    by (simp_all add: T_def P_def ws_def)
  have Tn: "T ! i = TK (m - i)" if "i \<le> m" for i
    using that unfolding T_def by (subst rev_nth) (simp_all del: upt_Suc)
  have Pn: "P ! i = PL (m - Suc i)" if "i < m" for i
    using that unfolding P_def by (subst rev_nth) simp_all
  have wn: "ws ! i = W (m - Suc i)" if "i < m" for i
    using that unfolding ws_def by (subst rev_nth) simp_all
  have Tne: "T \<noteq> []" using lens(1) by auto
  have hd: "hd T = nodes ! s" and last: "last T = nodes ! s"
    using Tn[of 0] Tn[of m] lens(1) Xm X0 Tne
    by (simp_all add: TK_def hd_conv_nth last_conv_nth)
  have edges: "(T ! i, T ! Suc i, ws ! i, P ! i) \<in> set es" if "i < m" for i
  proof -
    from that have j: "m - Suc i < m" and e: "Suc (m - Suc i) = m - i" by simp_all
    from W[OF j] e Tn[of i] Tn[of "Suc i"] Pn[OF that] wn[OF that] that show ?thesis by simp
  qed
  have cw: "closed_walk es T P ws"
    unfolding closed_walk_def using lens hd last edges by simp
  have "\<exists>j < m. stamp (X j) \<le> stamp (X (Suc j))"
  proof (rule ccontr)
    assume "\<not> ?thesis"
    then have "\<And>j. j < m \<Longrightarrow> stamp (X (Suc j)) < stamp (X j)" by (simp add: not_le)
    from stamps_descend[of m stamp X m, OF this] have "stamp (X m) + m \<le> stamp (X 0)" by simp
    with Xm X0 m(1) show False by simp
  qed
  then obtain j0 where j0: "j0 < m" "d ! X (Suc j0) + W j0 < d ! X j0" using W by blast
  have "sum W {..<m} < (\<Sum>j<m. d ! X j - d ! X (Suc j))"
  proof (rule sum_strict_mono_ex1)
    show "finite {..<m}" by simp
    show "\<forall>j\<in>{..<m}. W j \<le> d ! X j - d ! X (Suc j)" using W by (simp add: algebra_simps)
    show "\<exists>j\<in>{..<m}. W j < d ! X j - d ! X (Suc j)" using j0 by (auto simp: algebra_simps)
  qed
  also have "\<dots> = d ! X 0 - d ! X m" by (rule sum_lessThan_telescope')
  also have "\<dots> = 0" using X0 Xm by simp
  finally have "sum W {..<m} < 0" .
  moreover have "sum_list ws = sum W {..<m}"
    unfolding ws_def by (simp add: sum_list_rev interv_sum_list_conv_sum_set_nat atLeast0LessThan)
  ultimately have neg: "sum_list ws < 0" by simp
  have "P \<noteq> []" using lens(2) m(1) by auto
  with fin cw neg hd show ?thesis by blast
qed

lemma walk_back_disc_piter:
  "walk_back_disc parent k v = (case piter parent k v of None \<Rightarrow> Inl TypeError | Some s \<Rightarrow> Inr s)"
  by (induction k arbitrary: v) (auto split: option.splits)

lemma walk_back_piter:
  "piter parent k v = Some s \<Longrightarrow> walk_back parent k v = s"
  by (induction k arbitrary: v) (auto split: option.splits)

lemma walk_back_stops:
  "piter parent k v = None \<Longrightarrow> parent ! walk_back parent k v = None"
  by (induction k arbitrary: v) (auto split: option.splits)

lemma extract_cycle_found:
  assumes inv: "bf_inv (token_to_idx nodes) es d parent" and len: "length d = length nodes"
    and v: "vi < length nodes" and s: "piter parent (length nodes) vi = Some s"
  shows "\<exists>T P ws.
      extract_cycle parent (idx_to_token nodes) (length nodes) vi = Some (Inr (T, P))
      \<and> extract_cycle_disc parent (idx_to_token nodes) (length nodes) vi = Some (Inr (T, P))
      \<and> P \<noteq> [] \<and> closed_walk es T P ws \<and> sum_list ws < 0 \<and> hd T = nodes ! s"
proof -
  from v len have vd: "vi < length d" by simp
  from s len have sd: "piter parent (length d) vi = Some s" by simp
  from piter_bound[OF inv vd sd] len have sn: "s < length nodes" by simp
  from piter_cycle[OF inv vd sd] obtain k where k: "0 < k" "piter parent k s = Some s" by blast
  from cycle_of_links[OF inv len sn k] obtain T P ws where
    f: "finish_cycle (idx_to_token nodes) s (collect_cycle parent (idx_to_token nodes) s s [] [])
        = Some (Inr (T, P))"
    and r: "P \<noteq> []" "closed_walk es T P ws" "sum_list ws < 0" "hd T = nodes ! s" by blast
  have "extract_cycle parent (idx_to_token nodes) (length nodes) vi = Some (Inr (T, P))"
    unfolding extract_cycle_def using walk_back_piter[OF s] f by simp
  moreover have "extract_cycle_disc parent (idx_to_token nodes) (length nodes) vi = Some (Inr (T, P))"
    unfolding extract_cycle_disc_def walk_back_disc_piter using s f by simp
  ultimately show ?thesis using r by blast
qed

lemma walk_back_bound:
  assumes "bf_inv idx es d parent" "v < length d"
  shows "walk_back parent k v < length d"
  using assms(2)
proof (induction k arbitrary: v)
  case 0
  then show ?case by simp
next
  case (Suc k)
  show ?case
  proof (cases "parent ! v")
    case None
    with Suc.prems show ?thesis by simp
  next
    case (Some l)
    obtain u p where l: "l = (u, p)" by (cases l)
    from bf_inv_link[OF assms(1) Suc.prems] Some l have "u < length d" by simp
    from Suc.IH[OF this] Some l show ?thesis by simp
  qed
qed

lemma extract_cycle_stopped:
  assumes inv: "bf_inv (token_to_idx nodes) es d parent" and len: "length d = length nodes"
    and v: "vi < length nodes" and s: "piter parent (length nodes) vi = None"
  shows "extract_cycle parent (idx_to_token nodes) (length nodes) vi
           = Some (Inr ([nodes ! walk_back parent (length nodes) vi], []))
      \<and> parent ! walk_back parent (length nodes) vi = None
      \<and> extract_cycle_disc parent (idx_to_token nodes) (length nodes) vi = Some (Inl TypeError)"
proof -
  let ?s = "walk_back parent (length nodes) vi"
  from walk_back_bound[OF inv, of vi "length nodes"] v len have b: "?s < length nodes" by simp
  have n: "parent ! ?s = None" using walk_back_stops[OF s] .
  have c: "collect_cycle parent (idx_to_token nodes) ?s ?s [] [] = Some (Inr ([], []))"
    by (subst collect_cycle.simps) (simp add: n)
  have "extract_cycle parent (idx_to_token nodes) (length nodes) vi = Some (Inr ([nodes ! ?s], []))"
    unfolding extract_cycle_def Let_def c finish_cycle_def using b by (simp add: idx_to_token_nth)
  moreover have "extract_cycle_disc parent (idx_to_token nodes) (length nodes) vi = Some (Inl TypeError)"
    unfolding extract_cycle_disc_def walk_back_disc_piter using s by simp
  ultimately show ?thesis using n by simp
qed

lemma detect_cases:
  "detect idx i2t N d parent es = Some (Inr ([], []))
   \<or> (detect idx i2t N d parent es = Some (Inl KeyError)
        \<and> (\<exists>u v w p. (u, v, w, p) \<in> set es \<and> (idx u = None \<or> idx v = None)))
   \<or> (\<exists>u v w p ui vi. (u, v, w, p) \<in> set es \<and> idx u = Some ui \<and> idx v = Some vi
         \<and> d ! ui + w < d ! vi
         \<and> detect idx i2t N d parent es = extract_cycle parent i2t N vi)"
  (is "?A es \<or> ?B es \<or> ?C es")
proof (induction es)
  case Nil
  show ?case by simp
next
  case (Cons e es)
  obtain u v w p where e: "e = (u, v, w, p)" by (cases e rule: prod_cases4)
  show ?case
  proof (cases "idx u = None \<or> idx v = None")
    case True
    then have "detect idx i2t N d parent (e # es) = Some (Inl KeyError)"
      unfolding e by (auto split: option.splits)
    moreover have "\<exists>u v w p. (u, v, w, p) \<in> set (e # es) \<and> (idx u = None \<or> idx v = None)"
      using True e by (intro exI[of _ u] exI[of _ v] exI[of _ w] exI[of _ p]) simp
    ultimately have "?B (e # es)" by simp
    then show ?thesis by simp
  next
    case False
    then obtain ui vi where i: "idx u = Some ui" "idx v = Some vi" by auto
    show ?thesis
    proof (cases "d ! ui + w < d ! vi")
      case True
      with i have "detect idx i2t N d parent (e # es) = extract_cycle parent i2t N vi"
        unfolding e by simp
      with i True e have "?C (e # es)"
        by (intro exI[of _ u] exI[of _ v] exI[of _ w] exI[of _ p] exI[of _ ui] exI[of _ vi]) simp
      then show ?thesis by simp
    next
      case False
      with i have eq: "detect idx i2t N d parent (e # es) = detect idx i2t N d parent es"
        unfolding e by simp
      from Cons.IH consider "?A es" | "?B es" | "?C es" by blast
      then show ?thesis
      proof cases
        case 1
        then have "?A (e # es)" using eq by simp
        then show ?thesis by simp
      next
        case 2
        then obtain u' v' w' p' where "(u', v', w', p') \<in> set es" "idx u' = None \<or> idx v' = None"
          by blast
        then have "\<exists>u v w p. (u, v, w, p) \<in> set (e # es) \<and> (idx u = None \<or> idx v = None)"
          by (intro exI[of _ u'] exI[of _ v'] exI[of _ w'] exI[of _ p']) simp
        with 2 eq have "?B (e # es)" by simp
        then show ?thesis by simp
      next
        case 3
        then obtain u' v' w' p' ui' vi' where c: "(u', v', w', p') \<in> set es" "idx u' = Some ui'"
          "idx v' = Some vi'" "d ! ui' + w' < d ! vi'"
          "detect idx i2t N d parent es = extract_cycle parent i2t N vi'" by blast
        then have "?C (e # es)" using eq
          by (intro exI[of _ u'] exI[of _ v'] exI[of _ w'] exI[of _ p'] exI[of _ ui'] exI[of _ vi']) simp
        then show ?thesis by simp
      qed
    qed
  qed
qed

lemma detect_disc_cases:
  "detect_disc idx i2t N d parent es = Some (Inr ([], []))
   \<or> (detect_disc idx i2t N d parent es = Some (Inl KeyError)
        \<and> (\<exists>u v w p. (u, v, w, p) \<in> set es \<and> (idx u = None \<or> idx v = None)))
   \<or> (\<exists>u v w p ui vi. (u, v, w, p) \<in> set es \<and> idx u = Some ui \<and> idx v = Some vi
         \<and> d ! ui + w < d ! vi
         \<and> detect_disc idx i2t N d parent es = extract_cycle_disc parent i2t N vi)"
  (is "?A es \<or> ?B es \<or> ?C es")
proof (induction es)
  case Nil
  show ?case by simp
next
  case (Cons e es)
  obtain u v w p where e: "e = (u, v, w, p)" by (cases e rule: prod_cases4)
  show ?case
  proof (cases "idx u = None \<or> idx v = None")
    case True
    then have "detect_disc idx i2t N d parent (e # es) = Some (Inl KeyError)"
      unfolding e by (auto split: option.splits)
    moreover have "\<exists>u v w p. (u, v, w, p) \<in> set (e # es) \<and> (idx u = None \<or> idx v = None)"
      using True e by (intro exI[of _ u] exI[of _ v] exI[of _ w] exI[of _ p]) simp
    ultimately have "?B (e # es)" by simp
    then show ?thesis by simp
  next
    case False
    then obtain ui vi where i: "idx u = Some ui" "idx v = Some vi" by auto
    show ?thesis
    proof (cases "d ! ui + w < d ! vi")
      case True
      with i have "detect_disc idx i2t N d parent (e # es) = extract_cycle_disc parent i2t N vi"
        unfolding e by simp
      with i True e have "?C (e # es)"
        by (intro exI[of _ u] exI[of _ v] exI[of _ w] exI[of _ p] exI[of _ ui] exI[of _ vi]) simp
      then show ?thesis by simp
    next
      case False
      with i have eq: "detect_disc idx i2t N d parent (e # es) = detect_disc idx i2t N d parent es"
        unfolding e by simp
      from Cons.IH consider "?A es" | "?B es" | "?C es" by blast
      then show ?thesis
      proof cases
        case 1
        then have "?A (e # es)" using eq by simp
        then show ?thesis by simp
      next
        case 2
        then obtain u' v' w' p' where "(u', v', w', p') \<in> set es" "idx u' = None \<or> idx v' = None"
          by blast
        then have "\<exists>u v w p. (u, v, w, p) \<in> set (e # es) \<and> (idx u = None \<or> idx v = None)"
          by (intro exI[of _ u'] exI[of _ v'] exI[of _ w'] exI[of _ p']) simp
        with 2 eq have "?B (e # es)" by simp
        then show ?thesis by simp
      next
        case 3
        then obtain u' v' w' p' ui' vi' where c: "(u', v', w', p') \<in> set es" "idx u' = Some ui'"
          "idx v' = Some vi'" "d ! ui' + w' < d ! vi'"
          "detect_disc idx i2t N d parent es = extract_cycle_disc parent i2t N vi'" by blast
        then have "?C (e # es)" using eq
          by (intro exI[of _ u'] exI[of _ v'] exI[of _ w'] exI[of _ p'] exI[of _ ui'] exI[of _ vi']) simp
        then show ?thesis by simp
      qed
    qed
  qed
qed

lemma closed_walk_single: "closed_walk es [x] [] []"
  by (simp add: closed_walk_def)

text \<open>What a detector can return.\<close>

lemma find_negative_cycle_result:
  "(\<exists>e. find_negative_cycle nodes es = Some (Inl e))
   \<or> find_negative_cycle nodes es = Some (Inr ([], []))
   \<or> (\<exists>s. s < length nodes \<and> find_negative_cycle nodes es = Some (Inr ([nodes ! s], [])))
   \<or> (\<exists>T P ws. find_negative_cycle nodes es = Some (Inr (T, P)) \<and> P \<noteq> []
         \<and> closed_walk es T P ws \<and> sum_list ws < 0)"
proof (cases "bellman_ford nodes es")
  case (Inl x)
  then show ?thesis by (simp add: find_negative_cycle_def)
next
  case (Inr st)
  obtain d parent cnt where st: "st = (d, parent, cnt)" by (cases st)
  from bellman_ford_inv[OF Inr[unfolded st]]
  have inv: "bf_inv (token_to_idx nodes) es d parent" and len: "length d = length nodes" by simp_all
  have f: "find_negative_cycle nodes es =
      detect (token_to_idx nodes) (idx_to_token nodes) (length nodes) d parent es"
    using Inr st by (simp add: find_negative_cycle_def)
  from detect_cases[of "token_to_idx nodes" "idx_to_token nodes" "length nodes" d parent es]
  consider (none) "find_negative_cycle nodes es = Some (Inr ([], []))"
    | (err) "find_negative_cycle nodes es = Some (Inl KeyError)"
    | (found) v vi where "token_to_idx nodes v = Some vi"
        "find_negative_cycle nodes es = extract_cycle parent (idx_to_token nodes) (length nodes) vi"
    unfolding f by blast
  then show ?thesis
  proof cases
    case none
    then show ?thesis by simp
  next
    case err
    then show ?thesis by simp
  next
    case found
    from token_to_idx_range[OF found(1)] have vn: "vi < length nodes" by simp
    show ?thesis
    proof (cases "piter parent (length nodes) vi")
      case None
      from extract_cycle_stopped[OF inv len vn None] found(2)
        walk_back_bound[OF inv, of vi "length nodes"] vn len
      have "\<exists>s. s < length nodes \<and> find_negative_cycle nodes es = Some (Inr ([nodes ! s], []))"
        by (intro exI[of _ "walk_back parent (length nodes) vi"]) simp
      then show ?thesis by simp
    next
      case (Some s)
      from extract_cycle_found[OF inv len vn Some] found(2)
      have "\<exists>T P ws. find_negative_cycle nodes es = Some (Inr (T, P)) \<and> P \<noteq> []
         \<and> closed_walk es T P ws \<and> sum_list ws < 0" by auto
      then show ?thesis by simp
    qed
  qed
qed

lemma find_negative_cycle_disc_result:
  "(\<exists>e. find_negative_cycle_disc nodes es = Some (Inl e))
   \<or> find_negative_cycle_disc nodes es = Some (Inr ([], []))
   \<or> (\<exists>T P ws. find_negative_cycle_disc nodes es = Some (Inr (T, P)) \<and> P \<noteq> []
         \<and> closed_walk es T P ws \<and> sum_list ws < 0)"
proof (cases "bellman_ford_disc nodes es")
  case (Inl x)
  then show ?thesis by (simp add: find_negative_cycle_disc_def)
next
  case (Inr st)
  obtain d parent cnt where st: "st = (d, parent, cnt)" by (cases st)
  from bellman_ford_disc_inv[OF Inr[unfolded st]]
  have inv: "bf_inv (token_to_idx nodes) es d parent" and len: "length d = length nodes" by simp_all
  have f: "find_negative_cycle_disc nodes es =
      detect_disc (token_to_idx nodes) (idx_to_token nodes) (length nodes) d parent es"
    using Inr st by (simp add: find_negative_cycle_disc_def)
  from detect_disc_cases[of "token_to_idx nodes" "idx_to_token nodes" "length nodes" d parent es]
  consider (none) "find_negative_cycle_disc nodes es = Some (Inr ([], []))"
    | (err) "find_negative_cycle_disc nodes es = Some (Inl KeyError)"
    | (found) v vi where "token_to_idx nodes v = Some vi"
        "find_negative_cycle_disc nodes es = extract_cycle_disc parent (idx_to_token nodes) (length nodes) vi"
    unfolding f by blast
  then show ?thesis
  proof cases
    case none
    then show ?thesis by simp
  next
    case err
    then show ?thesis by simp
  next
    case found
    from token_to_idx_range[OF found(1)] have vn: "vi < length nodes" by simp
    show ?thesis
    proof (cases "piter parent (length nodes) vi")
      case None
      from extract_cycle_stopped[OF inv len vn None] found(2) show ?thesis by simp
    next
      case (Some s)
      from extract_cycle_found[OF inv len vn Some] found(2)
      have "\<exists>T P ws. find_negative_cycle_disc nodes es = Some (Inr (T, P)) \<and> P \<noteq> []
         \<and> closed_walk es T P ws \<and> sum_list ws < 0" by auto
      then show ?thesis by simp
    qed
  qed
qed

lemma closed_walk_shape:
  assumes "closed_walk es T P ws"
  shows "hd T = last T \<and> length T = length P + 1
     \<and> (\<forall>i < length P. \<exists>w. (T ! i, T ! Suc i, w, P ! i) \<in> set es)"
  using assms unfolding closed_walk_def by blast

text \<open>
  Claim C10. Whenever the detector of either program returns a result whose token
  sequence is not empty, that sequence begins and ends with the same token, it has one
  element more than the pool sequence, and for every \<open>i\<close> the graph has an edge from
  token \<open>i\<close> to token \<open>i + 1\<close> that is backed by pool \<open>i\<close>.
\<close>

theorem cycle_is_closed_walk:
  assumes "find_negative_cycle nodes edges = Some (Inr (T, P))
         \<or> find_negative_cycle_disc nodes edges = Some (Inr (T, P))"
    and "T \<noteq> []"
  shows "hd T = last T \<and> length T = length P + 1
     \<and> (\<forall>i < length P. \<exists>w. (T ! i, T ! Suc i, w, P ! i) \<in> set edges)"
proof -
  have "\<exists>ws. closed_walk edges T P ws"
  proof -
    from assms(1) consider (one) "find_negative_cycle nodes edges = Some (Inr (T, P))"
      | (two) "find_negative_cycle_disc nodes edges = Some (Inr (T, P))" by blast
    then show ?thesis
    proof cases
      case one
      from find_negative_cycle_result[of nodes edges]
      consider "T = []" | s where "T = [nodes ! s]" "P = []" | ws where "closed_walk edges T P ws"
        unfolding one by auto
      then show ?thesis
      proof cases
        case 1
        with assms(2) show ?thesis by simp
      next
        case 2
        then show ?thesis using closed_walk_single[of edges "nodes ! s"] by blast
      next
        case 3
        then show ?thesis by blast
      qed
    next
      case two
      from find_negative_cycle_disc_result[of nodes edges]
      consider "T = []" | ws where "closed_walk edges T P ws"
        unfolding two by auto
      then show ?thesis using assms(2) by cases auto
    qed
  qed
  then show ?thesis using closed_walk_shape by blast
qed

theorem cycle_is_closed_walk_witness:
  "find_negative_cycle [''A'', ''B'']
       [(''A'', ''B'', - 1, ''p1''), (''B'', ''A'', 2, ''p2''), (''A'', ''B'', 2, ''p3''), (''B'', ''A'', - 1, ''p4'')]
     = Some (Inr ([''B'', ''A'', ''B''], [''p4'', ''p1'']))
   \<and> hd [''B'', ''A'', ''B''] = last [''B'', ''A'', ''B'']
   \<and> length [''B'', ''A'', ''B''] = length [''p4'', ''p1''] + 1
   \<and> (\<exists>w :: real. (''B'', ''A'', w, ''p4'') \<in>
          set [(''A'', ''B'', - 1, ''p1''), (''B'', ''A'', 2, ''p2''), (''A'', ''B'', 2, ''p3''), (''B'', ''A'', - 1, ''p4'')])
   \<and> (\<exists>w :: real. (''A'', ''B'', w, ''p1'') \<in>
          set [(''A'', ''B'', - 1, ''p1''), (''B'', ''A'', 2, ''p2''), (''A'', ''B'', 2, ''p3''), (''B'', ''A'', - 1, ''p4'')])"
proof -
  let ?es = "[(''A'', ''B'', - 1, ''p1''), (''B'', ''A'', 2, ''p2''), (''A'', ''B'', 2, ''p3''), (''B'', ''A'', - 1, ''p4'')]"
  have r: "find_negative_cycle [''A'', ''B''] ?es = Some (Inr ([''B'', ''A'', ''B''], [''p4'', ''p1'']))"
    using two_pool_cycle(1)[of "''A''" "''B''" 1 2 "''p1''" "''p2''" "''p3''" "''p4''"] by simp
  have ne: "[''B'', ''A'', ''B''] \<noteq> []" by simp
  note t = cycle_is_closed_walk[OF disjI1[OF r] ne]
  from t have h0: "\<exists>w. ([''B'', ''A'', ''B''] ! 0, [''B'', ''A'', ''B''] ! Suc 0, w, [''p4'', ''p1''] ! 0) \<in> set ?es"
    by simp
  from t have h1: "\<exists>w. ([''B'', ''A'', ''B''] ! 1, [''B'', ''A'', ''B''] ! Suc 1, w, [''p4'', ''p1''] ! 1) \<in> set ?es"
    by simp
  from r t h0 h1 show ?thesis by simp
qed

section \<open>The backward walk\<close>




section \<open>The detector returns\<close>

lemma relax_edge_ok:
  assumes "idx (fst e) \<noteq> None" "idx (fst (snd e)) \<noteq> None"
  shows "\<exists>st'. relax_edge idx st e = Inr st'"
proof -
  obtain u v w p where e: "e = (u, v, w, p)" by (cases e rule: prod_cases4)
  obtain d parent upd where st: "st = (d, parent, upd)" by (cases st) auto
  from assms show ?thesis unfolding e st by auto
qed

lemma relax_pass_ok:
  assumes "\<forall>e \<in> set es. idx (fst e) \<noteq> None \<and> idx (fst (snd e)) \<noteq> None"
  shows "\<exists>st'. relax_pass idx st es = Inr st'"
  using assms
proof (induction es arbitrary: st)
  case Nil
  show ?case by (intro exI[of _ st]) simp
next
  case (Cons e es)
  from Cons.prems relax_edge_ok[of idx e st] obtain st1 where "relax_edge idx st e = Inr st1"
    by auto
  moreover from Cons.IH[of st1] Cons.prems obtain st2 where "relax_pass idx st1 es = Inr st2"
    by auto
  ultimately show ?case by (intro exI[of _ st2]) simp
qed

lemma relax_passes_ok:
  assumes "\<forall>e \<in> set es. idx (fst e) \<noteq> None \<and> idx (fst (snd e)) \<noteq> None"
  shows "\<exists>st'. relax_passes k idx es st = Inr st'"
proof (induction k arbitrary: st)
  case 0
  show ?case by (intro exI[of _ st]) simp
next
  case (Suc k)
  obtain d parent cnt where st: "st = (d, parent, cnt)" by (cases st) auto
  from relax_pass_ok[OF assms, of "(d, parent, False)"] obtain d1 p1 u1 where
    p: "relax_pass idx (d, parent, False) es = Inr (d1, p1, u1)" by (metis prod_cases3)
  show ?case
  proof (cases u1)
    case True
    from Suc.IH[of "(d1, p1, Suc cnt)"] obtain st2 where
      "relax_passes k idx es (d1, p1, Suc cnt) = Inr st2" by blast
    with p True show ?thesis unfolding st by (intro exI[of _ st2]) simp
  next
    case False
    with p show ?thesis unfolding st by (intro exI[of _ "(d1, p1, Suc cnt)"]) simp
  qed
qed

lemma well_formed_idx:
  assumes "well_formed nodes es"
  shows "\<forall>e \<in> set es. token_to_idx nodes (fst e) \<noteq> None \<and> token_to_idx nodes (fst (snd e)) \<noteq> None"
proof
  fix e assume e: "e \<in> set es"
  obtain u v w p where eq: "e = (u, v, w, p)" by (cases e rule: prod_cases4)
  from assms e eq have d: "distinct nodes" and m: "u \<in> set nodes" "v \<in> set nodes"
    unfolding well_formed_def list_all_iff by auto
  from token_to_idx_mem[OF d m(1)] token_to_idx_mem[OF d m(2)]
  show "token_to_idx nodes (fst e) \<noteq> None \<and> token_to_idx nodes (fst (snd e)) \<noteq> None"
    unfolding eq by auto
qed

lemma find_negative_cycle_returns:
  assumes wf: "well_formed nodes es"
  shows "\<exists>T P. find_negative_cycle nodes es = Some (Inr (T, P))"
proof -
  from relax_passes_ok[OF well_formed_idx[OF wf]] obtain d parent cnt where
    b: "bellman_ford nodes es = Inr (d, parent, cnt)"
    unfolding bellman_ford_def by (metis prod_cases3)
  from bellman_ford_inv[OF b]
  have inv: "bf_inv (token_to_idx nodes) es d parent" and len: "length d = length nodes" by simp_all
  have f: "find_negative_cycle nodes es =
      detect (token_to_idx nodes) (idx_to_token nodes) (length nodes) d parent es"
    using b by (simp add: find_negative_cycle_def)
  from detect_cases[of "token_to_idx nodes" "idx_to_token nodes" "length nodes" d parent es]
  consider (none) "find_negative_cycle nodes es = Some (Inr ([], []))"
    | (err) u v w p where "(u, v, w, p) \<in> set es"
        "token_to_idx nodes u = None \<or> token_to_idx nodes v = None"
    | (found) v vi where "token_to_idx nodes v = Some vi"
        "find_negative_cycle nodes es = extract_cycle parent (idx_to_token nodes) (length nodes) vi"
    unfolding f by blast
  then show ?thesis
  proof cases
    case none
    then show ?thesis by simp
  next
    case err
    with well_formed_idx[OF wf] show ?thesis by fastforce
  next
    case found
    from token_to_idx_range[OF found(1)] have vn: "vi < length nodes" by simp
    show ?thesis
    proof (cases "piter parent (length nodes) vi")
      case None
      from extract_cycle_stopped[OF inv len vn None] found(2) show ?thesis by simp
    next
      case (Some s)
      from extract_cycle_found[OF inv len vn Some] found(2) show ?thesis by auto
    qed
  qed
qed

text \<open>
  Claim C8. The detector is a function of the enumeration of the nodes and of the edge
  list, and of nothing else: it reads no clock, no random source and no state that an
  earlier run left, and it changes neither of its arguments. Two runs on the same graph
  therefore go through the same steps, and what is left to prove is that a run returns:
  its collecting loop is a \<^verbatim>\<open>while True\<close>. On a well-formed graph
  \<^verbatim>\<open>find_negative_cycle\<close> of \<^verbatim>\<open>arbitrage_bot.py\<close> returns, without raising, and there is
  exactly one pair of a token sequence and a pool sequence that it returns; the detector
  of the discovery bot has exactly one outcome as well, a pair or an exception.
\<close>

theorem detector_result_unique:
  assumes "well_formed nodes edges"
  shows "(\<exists>!r. find_negative_cycle nodes edges = Some (Inr r))
       \<and> (\<exists>!r. find_negative_cycle_disc nodes edges = Some r)"
proof -
  from find_negative_cycle_returns[OF assms] have "\<exists>!r. find_negative_cycle nodes edges = Some (Inr r)"
    by auto
  moreover from find_negative_cycle_disc_result[of nodes edges]
  have "\<exists>r. find_negative_cycle_disc nodes edges = Some r" by blast
  then have "\<exists>!r. find_negative_cycle_disc nodes edges = Some r" by auto
  ultimately show ?thesis by simp
qed

theorem detector_result_unique_witness:
  "well_formed [''A'', ''B'']
     [(''A'', ''B'', - 1, ''p1''), (''B'', ''A'', 2, ''p2''), (''A'', ''B'', 2, ''p3''), (''B'', ''A'', - 1, ''p4'')]
   \<and> (\<exists>!r. find_negative_cycle [''A'', ''B'']
          [(''A'', ''B'', - 1, ''p1''), (''B'', ''A'', 2, ''p2''), (''A'', ''B'', 2, ''p3''), (''B'', ''A'', - 1, ''p4'')]
        = Some (Inr r))
   \<and> (\<exists>!r. find_negative_cycle_disc [''A'', ''B'']
          [(''A'', ''B'', - 1, ''p1''), (''B'', ''A'', 2, ''p2''), (''A'', ''B'', 2, ''p3''), (''B'', ''A'', - 1, ''p4'')]
        = Some r)
   \<and> find_negative_cycle [''A'', ''B'']
          [(''A'', ''B'', - 1, ''p1''), (''B'', ''A'', 2, ''p2''), (''A'', ''B'', 2, ''p3''), (''B'', ''A'', - 1, ''p4'')]
        = Some (Inr ([''B'', ''A'', ''B''], [''p4'', ''p1'']))"
proof -
  let ?es = "[(''A'', ''B'', - 1 :: real, ''p1''), (''B'', ''A'', 2, ''p2''), (''A'', ''B'', 2, ''p3''), (''B'', ''A'', - 1, ''p4'')]"
  have wf: "well_formed [''A'', ''B''] ?es" by (simp add: well_formed_def)
  have r: "find_negative_cycle [''A'', ''B''] ?es = Some (Inr ([''B'', ''A'', ''B''], [''p4'', ''p1'']))"
    using two_pool_cycle(1)[of "''A''" "''B''" 1 2 "''p1''" "''p2''" "''p3''" "''p4''"] by simp
  from wf detector_result_unique[OF wf] r show ?thesis by (intro conjI) blast+
qed

section \<open>Reporting a signature once\<close>

lemma opportunities_append [simp]:
  "opportunities k (xs @ ys) = opportunities k xs + opportunities k ys"
  by (simp add: opportunities_def)

lemma opportunities_simps [simp]:
  "opportunities k [] = 0"
  "opportunities k (Rpc c # tr) = opportunities k tr"
  "opportunities k (Sleep # tr) = opportunities k tr"
  "opportunities k (Log_exception e # tr) = opportunities k tr"
  "opportunities k (Print_invalid_reserves a # tr) = opportunities k tr"
  "opportunities k (Warning_invalid_pair a # tr) = opportunities k tr"
  "opportunities k (Warning_reserve_failed a # tr) = opportunities k tr"
  "opportunities k (Arbitrage k' g ps # tr) = (if k' = k then Suc (opportunities k tr) else opportunities k tr)"
  by (simp_all add: opportunities_def)







lemma quiet_dep:
  assumes "\<And>x. quiet k (g x)"
  shows "quiet k (\<lambda>s. g s s)"
  using assms unfolding quiet_def by simp



























end
